theory Spec2Isabelle
  imports Main
begin

section \<open>The query pipeline of queries.go\<close>

subsection \<open>Value maps, the query context, errors\<close>

text \<open>
  \<^verbatim>\<open>type StringMap map[string]interface{}\<close>: a map from column names to dynamic
  values. The values are never inspected by the pipeline, so their type is a parameter.
  A value map handed to the pipeline is a non-nil pointer to such a map.
\<close>

type_synonym 'v StringMap = "string \<rightharpoonup> 'v"

text \<open>
  \<^verbatim>\<open>type QueryContext struct { query string; nameArgs *StringMap; args []interface{} }\<close>.
  One context is allocated per invocation and every stage works on that one object, so
  the model passes it along and returns it updated.
\<close>

record 'v QueryContext =
  query :: string
  nameArgs :: "'v StringMap"
  args :: "'v list"

text \<open>
  \<^verbatim>\<open>MakeCtxMaker(baseQuery)\<close> returns a thunk; each call of the thunk allocates a
  context with the base query, an empty \<open>nameArgs\<close> map and the zero value of \<open>args\<close>.
  The model is the context such a call produces.
\<close>

definition MakeCtxMaker :: "string \<Rightarrow> 'v QueryContext" where
  "MakeCtxMaker baseQuery = \<lparr>query = baseQuery, nameArgs = Map.empty, args = []\<rparr>"

text \<open>
  The errors a stage returns. The source builds them with \<^verbatim>\<open>errors.New\<close>:
  \<^item> \<open>MissingColumnError col q\<close> is
    \<^verbatim>\<open>"missing required col: " + col + "\nfor query: " + q\<close>;
  \<^item> \<open>EmptyPatchError\<close> is \<^verbatim>\<open>"nothing patched"\<close>;
  \<^item> \<open>ParameterBindingError n\<close> is the error \<^verbatim>\<open>sqlx.Named\<close> returns, handed on as it is.
\<close>

datatype error = MissingColumnError string string | EmptyPatchError | ParameterBindingError string

text \<open>
  Two library functions are called by the stages and are not part of the repository:
  \<^verbatim>\<open>fmt.Sprintf\<close> (with one string operand) and \<^verbatim>\<open>sqlx.Named\<close>. The stages take
  them as parameters.
\<close>

record 'v externals =
  Sprintf :: "string \<Rightarrow> string \<Rightarrow> string"
  Named :: "string \<Rightarrow> 'v StringMap \<Rightarrow> error + string \<times> 'v list"

subsection \<open>Stages\<close>

text \<open>
  The three \<^verbatim>\<open>Pipe\<close> values of the file. A \<^verbatim>\<open>Pipe\<close> applied to the context and the
  remaining pipes is a \<^verbatim>\<open>PipeInput\<close>; calling that with \<^verbatim>\<open>args...\<close> either panics
  or returns \<^verbatim>\<open>(ctx, next, err)\<close>:
  \<^item> \<open>Failed err\<close> stands for \<^verbatim>\<open>(nil, nil, err)\<close>;
  \<^item> \<open>Continue (Some (p, rest))\<close> for \<^verbatim>\<open>(ctx, p(ctx, &rest), nil)\<close>;
  \<^item> \<open>Continue None\<close> for \<^verbatim>\<open>(ctx, nil, nil)\<close>;
  \<^item> \<open>Panicked\<close> for a run-time panic (an index out of range).
  Beside the reply every stage returns the state of the context object when it stopped.
\<close>

datatype Pipe = EnsureInputCols "string list" | PatchFilter "string list" | BuildQuery

datatype reply = Panicked | Failed error | Continue "(Pipe \<times> Pipe list) option"

text \<open>The loop of \<^verbatim>\<open>EnsureInputColsPipe\<close>: check a column, copy it, go on; stop at the
  first column the input lacks.\<close>

fun ensure_cols :: "string list \<Rightarrow> 'v StringMap \<Rightarrow> 'v StringMap \<Rightarrow> string option \<times> 'v StringMap" where
  "ensure_cols [] inputMap na = (None, na)"
| "ensure_cols (col # required) inputMap na =
     (case inputMap col of
        None \<Rightarrow> (Some col, na)
      | Some v \<Rightarrow> ensure_cols required inputMap (na(col \<mapsto> v)))"

definition EnsureInputColsPipe ::
  "string list \<Rightarrow> 'v QueryContext \<Rightarrow> Pipe list \<Rightarrow> 'v StringMap list \<Rightarrow> reply \<times> 'v QueryContext" where
  "EnsureInputColsPipe required ctx pipes argv =
     (case argv of
        [] \<Rightarrow> (Panicked, ctx)
      | inputMap # _ \<Rightarrow>
          (case ensure_cols required inputMap (nameArgs ctx) of
             (Some col, na) \<Rightarrow>
               (Failed (MissingColumnError col (query ctx)), ctx\<lparr>nameArgs := na\<rparr>)
           | (None, na) \<Rightarrow>
               (case pipes of
                  [] \<Rightarrow> (Panicked, ctx\<lparr>nameArgs := na\<rparr>)
                | nextPipe # restPipes \<Rightarrow>
                    (Continue (Some (nextPipe, restPipes)), ctx\<lparr>nameArgs := na\<rparr>))))"

text \<open>\<^verbatim>\<open>strings.Join\<close>.\<close>

fun Join :: "string list \<Rightarrow> string \<Rightarrow> string" where
  "Join [] sep = []"
| "Join [x] sep = x"
| "Join (x # y # ys) sep = x @ sep @ Join (y # ys) sep"

text \<open>\<^verbatim>\<open>setstring := fmt.Sprintf("%s = :%s", col, col)\<close>.\<close>

definition setstring :: "string \<Rightarrow> string" where
  "setstring col = col @ '' = :'' @ col"

text \<open>The loop of \<^verbatim>\<open>PatchFilterPipe\<close> over the whitelist, on the triple
  \<^verbatim>\<open>(namedSetStrings, nameArgs, patched)\<close>.\<close>

fun patch_cols ::
  "string list \<Rightarrow> 'v StringMap \<Rightarrow> string list \<times> 'v StringMap \<times> bool \<Rightarrow> string list \<times> 'v StringMap \<times> bool" where
  "patch_cols [] patch acc = acc"
| "patch_cols (col # whitelist) patch (namedSetStrings, na, patched) =
     (case patch col of
        Some v \<Rightarrow>
          patch_cols whitelist patch (namedSetStrings @ [setstring col], na(col \<mapsto> v), True)
      | None \<Rightarrow> patch_cols whitelist patch (namedSetStrings, na, patched))"

definition PatchFilterPipe ::
  "'v externals \<Rightarrow> string list \<Rightarrow> 'v QueryContext \<Rightarrow> Pipe list \<Rightarrow> 'v StringMap list \<Rightarrow> reply \<times> 'v QueryContext" where
  "PatchFilterPipe L whitelist ctx pipes argv =
     (case argv of
        [] \<Rightarrow> (Panicked, ctx)
      | patch # _ \<Rightarrow>
          (case patch_cols whitelist patch ([], nameArgs ctx, False) of
             (namedSetStrings, na, patched) \<Rightarrow>
               if \<not> patched then (Failed EmptyPatchError, ctx\<lparr>nameArgs := na\<rparr>)
               else
                 (let ctx' = ctx\<lparr>nameArgs := na,
                                 query := Sprintf L (query ctx) (Join namedSetStrings '', '')\<rparr>
                  in case pipes of
                       [] \<Rightarrow> (Panicked, ctx')
                     | nextPipe # restPipes \<Rightarrow> (Continue (Some (nextPipe, restPipes)), ctx'))))"

definition BuildQueryPipe ::
  "'v externals \<Rightarrow> 'v QueryContext \<Rightarrow> Pipe list \<Rightarrow> 'v StringMap list \<Rightarrow> reply \<times> 'v QueryContext" where
  "BuildQueryPipe L ctx pipes argv =
     (case Named L (query ctx) (nameArgs ctx) of
        Inl err \<Rightarrow> (Failed err, ctx)
      | Inr (q, a) \<Rightarrow> (Continue None, ctx\<lparr>query := q, args := a\<rparr>))"

fun call_Pipe ::
  "'v externals \<Rightarrow> Pipe \<Rightarrow> 'v QueryContext \<Rightarrow> Pipe list \<Rightarrow> 'v StringMap list \<Rightarrow> reply \<times> 'v QueryContext" where
  "call_Pipe L (EnsureInputCols required) ctx pipes argv = EnsureInputColsPipe required ctx pipes argv"
| "call_Pipe L (PatchFilter whitelist) ctx pipes argv = PatchFilterPipe L whitelist ctx pipes argv"
| "call_Pipe L BuildQuery ctx pipes argv = BuildQueryPipe L ctx pipes argv"

text \<open>A stage hands over to the head of the remaining pipes, so the list it was given
  is longer than the one it passes on: the driving loop below terminates.\<close>

lemma call_Pipe_shorter:
  "call_Pipe L p ctx pipes argv = (Continue (Some (p', pipes')), ctx') \<Longrightarrow> length pipes' < length pipes"
  by (cases p)
     (auto simp: EnsureInputColsPipe_def PatchFilterPipe_def BuildQueryPipe_def Let_def
           split: list.splits prod.splits option.splits if_splits sum.splits)

subsection \<open>Composition and the driving loop\<close>

text \<open>
  \<^verbatim>\<open>composePipes(makeCtx, pipes...)\<close> closes over the context maker and the pipes; the
  model keeps the base query of the context maker and the list of pipes. With no pipes
  the source returns a no-op \<^verbatim>\<open>PipeInput\<close> that answers \<^verbatim>\<open>(nil, nil, nil)\<close>.
\<close>

type_synonym PipeInput = "string \<times> Pipe list"

definition composePipes :: "string \<Rightarrow> Pipe list \<Rightarrow> PipeInput" where
  "composePipes baseQuery pipes = (baseQuery, pipes)"

text \<open>What \<^verbatim>\<open>QueryApply\<close> does: it panics, or it returns \<^verbatim>\<open>(string, []interface{}, error)\<close>.\<close>

datatype 'v apply_result = Panics | Returns string "'v list" "error option"

text \<open>
  The loop of \<^verbatim>\<open>QueryApply\<close>, entered with the current \<^verbatim>\<open>PipeInput\<close> \<open>p(ctx, &pipes)\<close>:
  the next value map is passed if there is one left, otherwise \<^verbatim>\<open>args\<close> is empty.
\<close>

function QueryApply_loop ::
  "'v externals \<Rightarrow> Pipe \<Rightarrow> Pipe list \<Rightarrow> 'v QueryContext \<Rightarrow> 'v StringMap list \<Rightarrow> nat \<Rightarrow> 'v apply_result" where
  "QueryApply_loop L p pipes ctx stringmaps idx =
     (let argv = (if idx < length stringmaps then [stringmaps ! idx] else []);
          idx' = (if idx < length stringmaps then idx + 1 else idx)
      in case call_Pipe L p ctx pipes argv of
           (Panicked, _) \<Rightarrow> Panics
         | (Failed err, _) \<Rightarrow> Returns [] [] (Some err)
         | (Continue None, ctx') \<Rightarrow> Returns (query ctx') (args ctx') None
         | (Continue (Some (p', pipes')), ctx') \<Rightarrow> QueryApply_loop L p' pipes' ctx' stringmaps idx')"
  by pat_completeness auto
termination
  by (relation "measure (\<lambda>(L, p, pipes, ctx, stringmaps, idx). length pipes)")
     (auto dest: call_Pipe_shorter sym)

declare QueryApply_loop.simps [simp del]

definition QueryApply :: "'v externals \<Rightarrow> PipeInput \<Rightarrow> 'v StringMap list \<Rightarrow> 'v apply_result" where
  "QueryApply L pipe stringmaps =
     (case pipe of
        (baseQuery, []) \<Rightarrow> Returns [] [] None
      | (baseQuery, firstPipe # restPipes) \<Rightarrow>
          QueryApply_loop L firstPipe restPipes (MakeCtxMaker baseQuery) stringmaps 0)"

text \<open>
  The same loop, recording every call of a stage: the stage, the context it was given,
  its reply, and the context when it stopped.
\<close>

function QueryApply_trace ::
  "'v externals \<Rightarrow> Pipe \<Rightarrow> Pipe list \<Rightarrow> 'v QueryContext \<Rightarrow> 'v StringMap list \<Rightarrow> nat
     \<Rightarrow> (Pipe \<times> 'v QueryContext \<times> reply \<times> 'v QueryContext) list" where
  "QueryApply_trace L p pipes ctx stringmaps idx =
     (let argv = (if idx < length stringmaps then [stringmaps ! idx] else []);
          idx' = (if idx < length stringmaps then idx + 1 else idx)
      in case call_Pipe L p ctx pipes argv of
           (Continue (Some (p', pipes')), ctx') \<Rightarrow>
             (p, ctx, Continue (Some (p', pipes')), ctx') # QueryApply_trace L p' pipes' ctx' stringmaps idx'
         | (r, ctx') \<Rightarrow> [(p, ctx, r, ctx')])"
  by pat_completeness auto
termination
  by (relation "measure (\<lambda>(L, p, pipes, ctx, stringmaps, idx). length pipes)")
     (auto dest: call_Pipe_shorter sym)

declare QueryApply_trace.simps [simp del]

text \<open>A record of calls is chained from a context when every call starts from the
  context the call before it left behind.\<close>

fun chained :: "'v QueryContext \<Rightarrow> (Pipe \<times> 'v QueryContext \<times> reply \<times> 'v QueryContext) list \<Rightarrow> bool" where
  "chained c [] = True"
| "chained c ((p, c0, r, c1) # es) = (c0 = c \<and> chained c1 es)"

text \<open>What \<^verbatim>\<open>QueryApply\<close> makes of the last call of the loop.\<close>

fun apply_result_of :: "(Pipe \<times> 'v QueryContext \<times> reply \<times> 'v QueryContext) \<Rightarrow> 'v apply_result" where
  "apply_result_of (p, c, Panicked, c') = Panics"
| "apply_result_of (p, c, Failed err, c') = Returns [] [] (Some err)"
| "apply_result_of (p, c, Continue nxt, c') = Returns (query c') (args c') None"

text \<open>The number of value maps a chain reads: one for each stage in front of the first
  \<^verbatim>\<open>BuildQueryPipe\<close>, which ends the chain and ignores its arguments.\<close>

fun consumed :: "Pipe list \<Rightarrow> nat" where
  "consumed [] = 0"
| "consumed (BuildQuery # pipes) = 0"
| "consumed (p # pipes) = Suc (consumed pipes)"

subsection \<open>The catalog\<close>

definition sql_FETCH_CONFIG_SETTING_QUERY :: string where
  "sql_FETCH_CONFIG_SETTING_QUERY =
     ''\<newline>'' @
     ''    SELECT setting, value FROM Config WHERE setting = :setting;\<newline>'' @
     ''    ''"

definition sql_INSERT_CONFIG_SETTING_QUERY :: string where
  "sql_INSERT_CONFIG_SETTING_QUERY =
     ''\<newline>'' @
     ''    INSERT OR REPLACE INTO Config(setting, value) VALUES (:setting, :value);\<newline>'' @
     ''    ''"

definition sql_CREATE_NEW_DECK_QUERY :: string where
  "sql_CREATE_NEW_DECK_QUERY =
     ''\<newline>'' @
     ''    INSERT INTO Decks(name) VALUES (:name);\<newline>'' @
     ''    ''"

definition sql_FETCH_DECK_QUERY :: string where
  "sql_FETCH_DECK_QUERY =
     ''\<newline>'' @
     ''    SELECT deck_id, name FROM Decks WHERE deck_id = :deck_id;\<newline>'' @
     ''    ''"

definition sql_UPDATE_DECK_QUERY :: string where
  "sql_UPDATE_DECK_QUERY =
     ''\<newline>'' @
     ''    UPDATE Decks\<newline>'' @
     ''    SET\<newline>'' @
     ''    %s\<newline>'' @
     ''    WHERE deck_id = :deck_id\<newline>'' @
     ''    ''"

definition sql_ASSOCIATE_DECK_AS_CHILD_QUERY :: string where
  "sql_ASSOCIATE_DECK_AS_CHILD_QUERY =
     ''\<newline>'' @
     ''    INSERT OR IGNORE INTO DecksClosure(ancestor, descendent, depth)\<newline>'' @
     ''\<newline>'' @
     ''    /* for every ancestor of parent, make it an ancestor of child */\<newline>'' @
     ''    SELECT t.ancestor, :child, t.depth+1\<newline>'' @
     ''    FROM DecksClosure AS t\<newline>'' @
     ''    WHERE t.descendent = :parent\<newline>'' @
     ''\<newline>'' @
     ''    UNION ALL\<newline>'' @
     ''\<newline>'' @
     ''    /* child is an ancestor of itself with a depth of 0 */\<newline>'' @
     ''    SELECT :child, :child, 0;\<newline>'' @
     ''    ''"

definition sql_DECK_CHILDREN_QUERY :: string where
  "sql_DECK_CHILDREN_QUERY =
     ''\<newline>'' @
     ''    SELECT ancestor, descendent, depth\<newline>'' @
     ''    FROM DecksClosure\<newline>'' @
     ''    WHERE\<newline>'' @
     ''    ancestor = :parent\<newline>'' @
     ''    AND depth = 1;\<newline>'' @
     ''    ''"

definition FETCH_CONFIG_SETTING_QUERY :: PipeInput where
  "FETCH_CONFIG_SETTING_QUERY =
     composePipes sql_FETCH_CONFIG_SETTING_QUERY [EnsureInputCols [''setting''], BuildQuery]"

definition SET_CONFIG_SETTING_QUERY :: PipeInput where
  "SET_CONFIG_SETTING_QUERY =
     composePipes sql_INSERT_CONFIG_SETTING_QUERY [EnsureInputCols [''setting'', ''value''], BuildQuery]"

definition CREATE_NEW_DECK_QUERY :: PipeInput where
  "CREATE_NEW_DECK_QUERY =
     composePipes sql_CREATE_NEW_DECK_QUERY [EnsureInputCols [''name''], BuildQuery]"

definition FETCH_DECK_QUERY :: PipeInput where
  "FETCH_DECK_QUERY =
     composePipes sql_FETCH_DECK_QUERY [EnsureInputCols [''deck_id''], BuildQuery]"

definition UPDATE_DECK_QUERY :: PipeInput where
  "UPDATE_DECK_QUERY =
     composePipes sql_UPDATE_DECK_QUERY
       [EnsureInputCols [''deck_id''], PatchFilter [''name''], BuildQuery]"

definition ASSOCIATE_DECK_AS_CHILD_QUERY :: PipeInput where
  "ASSOCIATE_DECK_AS_CHILD_QUERY =
     composePipes sql_ASSOCIATE_DECK_AS_CHILD_QUERY [EnsureInputCols [''parent'', ''child''], BuildQuery]"

definition DECK_CHILDREN_QUERY :: PipeInput where
  "DECK_CHILDREN_QUERY =
     composePipes sql_DECK_CHILDREN_QUERY [EnsureInputCols [''parent''], BuildQuery]"

definition catalog :: "PipeInput list" where
  "catalog = [FETCH_CONFIG_SETTING_QUERY, SET_CONFIG_SETTING_QUERY, CREATE_NEW_DECK_QUERY,
     FETCH_DECK_QUERY, UPDATE_DECK_QUERY, ASSOCIATE_DECK_AS_CHILD_QUERY, DECK_CHILDREN_QUERY]"

subsection \<open>The library functions\<close>

text \<open>
  \<^verbatim>\<open>fmt.Sprintf(format, a)\<close> of the Go library with one string operand, after the
  documentation of package \<^verbatim>\<open>fmt\<close>, for the formats in which every
  \<open>%\<close> is followed by \<open>s\<close> or \<open>%\<close> or ends the format: \<open>%s\<close> prints the operand
  (or \<open>%!s(MISSING)\<close> once the operand is used up), \<open>%%\<close> prints a percent sign, a
  trailing \<open>%\<close> prints \<open>%!(NOVERB)\<close>, and an operand no verb has used is reported at the
  end as \<open>%!(EXTRA string=...)\<close>. Other verbs, flags, widths and argument indexes are not
  modelled: the result is \<open>None\<close> there.
\<close>

fun Sprintf_scan :: "string \<Rightarrow> string option \<Rightarrow> string option" where
  "Sprintf_scan [] None = Some []"
| "Sprintf_scan [] (Some a) = Some (''%!(EXTRA string='' @ a @ '')'')"
| "Sprintf_scan [c] operand =
     (if c = CHR ''%'' then map_option (\<lambda>r. ''%!(NOVERB)'' @ r) (Sprintf_scan [] operand)
      else map_option (\<lambda>r. c # r) (Sprintf_scan [] operand))"
| "Sprintf_scan (c # d # f) operand =
     (if c \<noteq> CHR ''%'' then map_option (\<lambda>r. c # r) (Sprintf_scan (d # f) operand)
      else if d = CHR ''%'' then map_option (\<lambda>r. CHR ''%'' # r) (Sprintf_scan f operand)
      else if d = CHR ''s'' then
        (case operand of
           Some a \<Rightarrow> map_option (\<lambda>r. a @ r) (Sprintf_scan f None)
         | None \<Rightarrow> map_option (\<lambda>r. ''%!s(MISSING)'' @ r) (Sprintf_scan f None))
      else None)"

definition fmt_Sprintf :: "string \<Rightarrow> string \<Rightarrow> string option" where
  "fmt_Sprintf format a = Sprintf_scan format (Some a)"


text \<open>
  Modelled from the spec: \<^verbatim>\<open>sqlx.Named\<close> (package github.com/jmoiron/sqlx), which
  \<^verbatim>\<open>BuildQueryPipe\<close> calls and which is not among the sources. The spec says that it
  rewrites the template's named placeholders (\<open>:name\<close> syntax) into the positional
  placeholders of the SQL engine, in template order, that it emits the values in that same
  order, and that it fails when a named placeholder has no entry in the named-parameter
  map. Here a placeholder is a colon followed by the longest non-empty run of letters,
  digits and underscores; it is rewritten to \<open>?\<close>, the positional placeholder of SQLite;
  every other character is copied.
\<close>

definition is_name_char :: "char \<Rightarrow> bool" where
  "is_name_char c = (c \<in> set ''abcdefghijklmnopqrstuvwxyzABCDEFGHIJKLMNOPQRSTUVWXYZ0123456789_'')"

text \<open>Modelled from the spec: the rewriting that \<^verbatim>\<open>sqlx.Named\<close> does (not among the
  sources), as one pass over the template from left to right that returns the rewritten
  text and the placeholder names in the order they stand in.\<close>

function named_scan :: "string \<Rightarrow> string \<times> string list" where
  "named_scan [] = ([], [])"
| "named_scan (b # qs) =
     (if b = CHR '':'' \<and> takeWhile is_name_char qs \<noteq> []
      then (case named_scan (dropWhile is_name_char qs) of
              (rebound, names) \<Rightarrow> (CHR ''?'' # rebound, takeWhile is_name_char qs # names))
      else (case named_scan qs of (rebound, names) \<Rightarrow> (b # rebound, names)))"
  by pat_completeness auto
termination
  by (relation "measure length") (auto simp: length_dropWhile_le less_Suc_eq_le)

definition positional :: "string \<Rightarrow> string" where
  "positional q = fst (named_scan q)"

definition named_params :: "string \<Rightarrow> string list" where
  "named_params q = snd (named_scan q)"

text \<open>Modelled from the spec: the lookup that \<^verbatim>\<open>sqlx.Named\<close> does (not among the
  sources): the values of the names in order, or the binding error for the first name
  without an entry.\<close>

fun bind_names :: "string list \<Rightarrow> 'v StringMap \<Rightarrow> error + 'v list" where
  "bind_names [] arg = Inr []"
| "bind_names (n # names) arg =
     (case arg n of
        None \<Rightarrow> Inl (ParameterBindingError n)
      | Some v \<Rightarrow> (case bind_names names arg of Inl err \<Rightarrow> Inl err | Inr vs \<Rightarrow> Inr (v # vs)))"

text \<open>Modelled from the spec: \<^verbatim>\<open>sqlx.Named(query, arg)\<close> (not among the sources), from
  the two parts above.\<close>

definition sqlx_Named :: "string \<Rightarrow> 'v StringMap \<Rightarrow> error + string \<times> 'v list" where
  "sqlx_Named q arg =
     (case bind_names (named_params q) arg of
        Inl err \<Rightarrow> Inl err
      | Inr vs \<Rightarrow> Inr (positional q, vs))"

text \<open>The library the examples run with. Its \<^verbatim>\<open>Sprintf\<close> is left unspecified on the
  formats that \<open>fmt_Sprintf\<close> does not cover.\<close>

definition golib :: "'v externals" where
  "golib = \<lparr>Sprintf = (\<lambda>format a. the (fmt_Sprintf format a)), Named = sqlx_Named\<rparr>"

section \<open>The closure table of decks\<close>

subsection \<open>Tables\<close>

text \<open>
  The tables of \<^verbatim>\<open>SETUP_DECKS_TABLE_QUERY\<close>, as lists of rows in insertion order:
  \<^verbatim>\<open>Decks(deck_id INTEGER PRIMARY KEY, name TEXT)\<close> and
  \<^verbatim>\<open>DecksClosure(ancestor, descendent, depth, PRIMARY KEY(ancestor, descendent))\<close>, whose
  two key columns reference \<^verbatim>\<open>Decks(deck_id)\<close>. Identifiers and depths are natural
  numbers here; the 64-bit range of SQLite integers plays no part.
\<close>

record Decks_row =
  deck_id :: nat
  name :: string

record DecksClosure_row =
  ancestor :: nat
  descendent :: nat
  depth :: nat

record database =
  Decks :: "Decks_row list"
  DecksClosure :: "DecksClosure_row list"

datatype sql_error = ForeignKeyFailed | CheckFailed

text \<open>The primary key of a closure row, and the two constraints of the schema as
  predicates on a database.\<close>

definition pk :: "DecksClosure_row \<Rightarrow> nat \<times> nat" where
  "pk r = (ancestor r, descendent r)"

definition references_Decks :: "Decks_row list \<Rightarrow> DecksClosure_row \<Rightarrow> bool" where
  "references_Decks ds r \<longleftrightarrow> ancestor r \<in> deck_id ` set ds \<and> descendent r \<in> deck_id ` set ds"

definition primary_key_ok :: "database \<Rightarrow> bool" where
  "primary_key_ok db \<longleftrightarrow> distinct (map pk (DecksClosure db))"


subsection \<open>Statements\<close>

text \<open>\<^verbatim>\<open>INSERT OR IGNORE\<close> of one row: a row whose primary key is already in the table
  is skipped, and the table is left as it is.\<close>

definition insert_or_ignore :: "DecksClosure_row list \<Rightarrow> DecksClosure_row \<Rightarrow> DecksClosure_row list" where
  "insert_or_ignore t r = (if pk r \<in> pk ` set t then t else t @ [r])"

text \<open>
  The compound \<^verbatim>\<open>SELECT\<close> of \<^verbatim>\<open>ASSOCIATE_DECK_AS_CHILD_QUERY\<close>, evaluated on the table
  as it is before the insert: first
  \<^verbatim>\<open>SELECT t.ancestor, :child, t.depth+1 FROM DecksClosure AS t WHERE t.descendent = :parent\<close>,
  then, after \<^verbatim>\<open>UNION ALL\<close>, the row \<^verbatim>\<open>SELECT :child, :child, 0\<close>.
\<close>

definition child_rows :: "DecksClosure_row list \<Rightarrow> nat \<Rightarrow> nat \<Rightarrow> DecksClosure_row list" where
  "child_rows t parent child =
     map (\<lambda>r. \<lparr>ancestor = ancestor r, descendent = child, depth = depth r + 1\<rparr>)
         (filter (\<lambda>r. descendent r = parent) t)"

definition associate_rows :: "DecksClosure_row list \<Rightarrow> nat \<Rightarrow> nat \<Rightarrow> DecksClosure_row list" where
  "associate_rows t parent child =
     child_rows t parent child @ [\<lparr>ancestor = child, descendent = child, depth = 0\<rparr>]"

text \<open>
  Running the statement of \<^verbatim>\<open>ASSOCIATE_DECK_AS_CHILD_QUERY\<close> with \<^verbatim>\<open>:parent\<close> and
  \<^verbatim>\<open>:child\<close> bound: the selected rows are inserted one after the other, each under
  \<^verbatim>\<open>OR IGNORE\<close>. SQLite enforces the foreign keys only on a connection on which
  \<^verbatim>\<open>BOOTSTRAP_QUERY\<close> (\<^verbatim>\<open>PRAGMA foreign_keys=ON\<close>) has been run; \<open>foreign_keys\<close> says
  whether it has. Foreign keys are not subject to \<^verbatim>\<open>OR IGNORE\<close>: when they are enforced
  and a row that was inserted references no deck, the statement fails and the database is
  unchanged.
\<close>

definition run_ASSOCIATE_DECK_AS_CHILD :: "bool \<Rightarrow> database \<Rightarrow> nat \<Rightarrow> nat \<Rightarrow> sql_error + database" where
  "run_ASSOCIATE_DECK_AS_CHILD foreign_keys db parent child =
     (let t = DecksClosure db;
          t' = foldl insert_or_ignore t (associate_rows t parent child)
      in if foreign_keys \<longrightarrow> list_all (references_Decks (Decks db)) (drop (length t) t')
         then Inr (db\<lparr>DecksClosure := t'\<rparr>)
         else Inl ForeignKeyFailed)"

text \<open>The database after a call of associate-as-child: a failed statement changes nothing.\<close>

definition associate_as_child :: "bool \<Rightarrow> database \<Rightarrow> nat \<Rightarrow> nat \<Rightarrow> database" where
  "associate_as_child foreign_keys db parent child =
     (case run_ASSOCIATE_DECK_AS_CHILD foreign_keys db parent child of
        Inr db' \<Rightarrow> db'
      | Inl err \<Rightarrow> db)"

text \<open>\<^verbatim>\<open>DECK_CHILDREN_QUERY\<close>: the rows with the given ancestor at depth 1.\<close>

definition run_DECK_CHILDREN :: "database \<Rightarrow> nat \<Rightarrow> DecksClosure_row list" where
  "run_DECK_CHILDREN db parent = filter (\<lambda>r. ancestor r = parent \<and> depth r = 1) (DecksClosure db)"

text \<open>
  \<^verbatim>\<open>CREATE_NEW_DECK_QUERY\<close> with the trigger \<^verbatim>\<open>decks_closure_new_deck\<close>: the new deck gets
  the next row id, and the trigger inserts its self-edge under \<^verbatim>\<open>OR IGNORE\<close>. An empty
  name fails the \<^verbatim>\<open>CHECK\<close> of the table.
\<close>

definition run_CREATE_NEW_DECK :: "database \<Rightarrow> string \<Rightarrow> sql_error + database" where
  "run_CREATE_NEW_DECK db nm =
     (if nm = [] then Inl CheckFailed
      else (let new_id = Suc (fold max (map deck_id (Decks db)) 0)
            in Inr \<lparr>Decks = Decks db @ [\<lparr>deck_id = new_id, name = nm\<rparr>],
                    DecksClosure = insert_or_ignore (DecksClosure db)
                                     \<lparr>ancestor = new_id, descendent = new_id, depth = 0\<rparr>\<rparr>))"

text \<open>A sequence of associate-as-child calls, each given as \<open>(parent, child)\<close>; it stops at
  the first statement that fails.\<close>

fun associate_all :: "bool \<Rightarrow> database \<Rightarrow> (nat \<times> nat) list \<Rightarrow> sql_error + database" where
  "associate_all foreign_keys db [] = Inr db"
| "associate_all foreign_keys db ((parent, child) # calls) =
     (case run_ASSOCIATE_DECK_AS_CHILD foreign_keys db parent child of
        Inl err \<Rightarrow> Inl err
      | Inr db' \<Rightarrow> associate_all foreign_keys db' calls)"

subsection \<open>The closure the table stands for\<close>

text \<open>
  \<open>descends D E a d n\<close>: among the decks \<open>D\<close> and the direct parent/child edges \<open>E\<close>, deck
  \<open>d\<close> is reached from deck \<open>a\<close> by a chain of \<open>n\<close> edges. This is the reflexive and
  transitive closure of \<open>E\<close> over \<open>D\<close>, with the length of the chain.
\<close>

inductive descends :: "nat set \<Rightarrow> (nat \<times> nat) set \<Rightarrow> nat \<Rightarrow> nat \<Rightarrow> nat \<Rightarrow> bool"
  for D :: "nat set" and E :: "(nat \<times> nat) set" where
  self: "a \<in> D \<Longrightarrow> descends D E a a 0"
| link: "descends D E a p n \<Longrightarrow> (p, c) \<in> E \<Longrightarrow> descends D E a c (Suc n)"

definition is_closure_of :: "database \<Rightarrow> (nat \<times> nat) set \<Rightarrow> bool" where
  "is_closure_of db E \<longleftrightarrow>
     (\<forall>r. r \<in> set (DecksClosure db)
          \<longleftrightarrow> descends (deck_id ` set (Decks db)) E (ancestor r) (descendent r) (depth r))"

text \<open>
  A call links a new edge in hierarchy order when the child is a deck other than the
  parent, the child has no descendant but itself yet (it has not been used as a parent),
  and no ancestor of the parent is an ancestor of the child yet (the edge is not closed).
\<close>

definition new_edge :: "database \<Rightarrow> nat \<Rightarrow> nat \<Rightarrow> bool" where
  "new_edge db parent child \<longleftrightarrow>
     parent \<noteq> child
     \<and> child \<in> deck_id ` set (Decks db)
     \<and> (\<forall>r \<in> set (DecksClosure db). ancestor r = child \<longrightarrow> descendent r = child)
     \<and> (\<forall>r \<in> set (DecksClosure db). descendent r = parent
           \<longrightarrow> (ancestor r, child) \<notin> pk ` set (DecksClosure db))"

fun hierarchy_order :: "bool \<Rightarrow> database \<Rightarrow> (nat \<times> nat) list \<Rightarrow> bool" where
  "hierarchy_order foreign_keys db [] = True"
| "hierarchy_order foreign_keys db ((parent, child) # calls) =
     (new_edge db parent child
      \<and> hierarchy_order foreign_keys (associate_as_child foreign_keys db parent child) calls)"

text \<open>Three decks as \<^verbatim>\<open>CREATE_NEW_DECK_QUERY\<close> leaves them, and a database in which the
  second deck has lost its self-edge.\<close>

definition three_decks :: database where
  "three_decks =
     \<lparr>Decks = [\<lparr>deck_id = 1, name = ''Animals''\<rparr>, \<lparr>deck_id = 2, name = ''Mammals''\<rparr>,
               \<lparr>deck_id = 3, name = ''Dogs''\<rparr>],
      DecksClosure = [\<lparr>ancestor = 1, descendent = 1, depth = 0\<rparr>,
                      \<lparr>ancestor = 2, descendent = 2, depth = 0\<rparr>,
                      \<lparr>ancestor = 3, descendent = 3, depth = 0\<rparr>]\<rparr>"


section \<open>Properties of the pipeline\<close>

subsection \<open>The required-columns stage\<close>

lemma ensure_cols_present:
  "set required \<subseteq> dom inputMap \<Longrightarrow>
     ensure_cols required inputMap na = (None, na ++ (inputMap |` set required))"
proof (induction required arbitrary: na)
  case Nil
  then show ?case by simp
next
  case (Cons col required)
  from Cons.prems obtain v where v: "inputMap col = Some v" by auto
  from Cons.prems have sub: "set required \<subseteq> dom inputMap" by simp
  have eq: "na(col \<mapsto> v) ++ (inputMap |` set required) = na ++ (inputMap |` set (col # required))"
    using v by (auto simp: map_add_def restrict_map_def fun_eq_iff split: option.splits)
  have "ensure_cols (col # required) inputMap na = ensure_cols required inputMap (na(col \<mapsto> v))"
    using v by simp
  also have "\<dots> = (None, na(col \<mapsto> v) ++ (inputMap |` set required))"
    by (rule Cons.IH [OF sub])
  also have "\<dots> = (None, na ++ (inputMap |` set (col # required)))"
    by (simp only: eq)
  finally show ?case .
qed

lemma ensure_cols_missing:
  "\<not> set required \<subseteq> dom inputMap \<Longrightarrow> \<exists>col na'. ensure_cols required inputMap na = (Some col, na')"
  by (induction required arbitrary: na) (auto split: option.splits)

text \<open>
  C3. For every list of required columns \<open>R\<close> and every value map \<open>M\<close>, the stage
  \<^verbatim>\<open>EnsureInputColsPipe(R)\<close>, run on a fresh context with \<open>M\<close> as its input and a next
  stage to hand over to, succeeds if and only if every name of \<open>R\<close> is a key of \<open>M\<close>; and
  when it succeeds the context's named-parameter map is \<open>M\<close> restricted to the names of
  \<open>R\<close>: the entries of \<open>R\<close> with the values of \<open>M\<close>, and nothing else.
\<close>

theorem requireColumns_succeeds_iff_superset:
  "((\<exists>nxt. fst (EnsureInputColsPipe R (MakeCtxMaker q) (nextPipe # restPipes) (M # others)) = Continue nxt)
      \<longleftrightarrow> set R \<subseteq> dom M)
   \<and> (set R \<subseteq> dom M \<longrightarrow>
        EnsureInputColsPipe R (MakeCtxMaker q) (nextPipe # restPipes) (M # others)
          = (Continue (Some (nextPipe, restPipes)),
             \<lparr>query = q, nameArgs = M |` set R, args = []\<rparr>))"
proof (cases "set R \<subseteq> dom M")
  case True
  then show ?thesis
    by (simp add: EnsureInputColsPipe_def MakeCtxMaker_def ensure_cols_present)
next
  case False
  from ensure_cols_missing [OF False, of Map.empty] obtain col na'
    where "ensure_cols R M Map.empty = (Some col, na')" by blast
  with False show ?thesis
    by (simp add: EnsureInputColsPipe_def MakeCtxMaker_def)
qed

theorem requireColumns_succeeds_iff_superset_witness:
  "set [''setting'', ''value''] \<subseteq> dom [''setting'' \<mapsto> (1::nat), ''value'' \<mapsto> 2, ''other'' \<mapsto> 3]
   \<and> EnsureInputColsPipe [''setting'', ''value''] (MakeCtxMaker ''q'') [BuildQuery]
        [[''setting'' \<mapsto> (1::nat), ''value'' \<mapsto> 2, ''other'' \<mapsto> 3]]
      = (Continue (Some (BuildQuery, [])),
         \<lparr>query = ''q'',
          nameArgs = [''setting'' \<mapsto> (1::nat), ''value'' \<mapsto> 2, ''other'' \<mapsto> 3] |` set [''setting'', ''value''],
          args = []\<rparr>)"
  using requireColumns_succeeds_iff_superset
    [of "[''setting'', ''value'']" "''q''" BuildQuery "[]"
        "[''setting'' \<mapsto> (1::nat), ''value'' \<mapsto> 2, ''other'' \<mapsto> 3]" "[]"]
  by simp

lemma ensure_cols_first_missing:
  "\<not> set R \<subseteq> dom M \<Longrightarrow>
     ensure_cols R M na =
       (Some (hd (dropWhile (\<lambda>c. c \<in> dom M) R)), na ++ (M |` set (takeWhile (\<lambda>c. c \<in> dom M) R)))"
proof (induction R arbitrary: na)
  case Nil
  then show ?case by simp
next
  case (Cons col R)
  show ?case
  proof (cases "M col")
    case None
    then show ?thesis by (simp add: domIff)
  next
    case (Some v)
    with Cons.prems have rest: "\<not> set R \<subseteq> dom M" by auto
    have eq: "na(col \<mapsto> v) ++ (M |` set (takeWhile (\<lambda>c. c \<in> dom M) R))
                = na ++ (M |` set (takeWhile (\<lambda>c. c \<in> dom M) (col # R)))"
      using Some by (auto simp: map_add_def restrict_map_def fun_eq_iff split: option.splits)
    have "ensure_cols (col # R) M na = ensure_cols R M (na(col \<mapsto> v))"
      using Some by simp
    also have "\<dots> = (Some (hd (dropWhile (\<lambda>c. c \<in> dom M) R)),
                        na(col \<mapsto> v) ++ (M |` set (takeWhile (\<lambda>c. c \<in> dom M) R)))"
      by (rule Cons.IH [OF rest])
    also have "\<dots> = (Some (hd (dropWhile (\<lambda>c. c \<in> dom M) (col # R))),
                        na ++ (M |` set (takeWhile (\<lambda>c. c \<in> dom M) (col # R))))"
      using Some by (simp only: eq) (simp add: domI)
    finally show ?thesis .
  qed
qed

lemma first_missing_in:
  assumes "\<not> set R \<subseteq> dom M"
  shows "hd (dropWhile (\<lambda>c. c \<in> dom M) R) \<in> set R \<and> hd (dropWhile (\<lambda>c. c \<in> dom M) R) \<notin> dom M"
proof -
  from assms have ne: "dropWhile (\<lambda>c. c \<in> dom M) R \<noteq> []"
    by (auto simp: dropWhile_eq_Nil_conv)
  then have "hd (dropWhile (\<lambda>c. c \<in> dom M) R) \<in> set (dropWhile (\<lambda>c. c \<in> dom M) R)"
    by simp
  then have "hd (dropWhile (\<lambda>c. c \<in> dom M) R) \<in> set R"
    by (rule set_dropWhileD)
  moreover have "\<not> (hd (dropWhile (\<lambda>c. c \<in> dom M) R) \<in> dom M)"
    using ne by (rule hd_dropWhile)
  ultimately show ?thesis by simp
qed

text \<open>
  C5, as amended. The claim says that on the failure path the named-parameter map is left
  unchanged because all columns are validated before any is copied. The loop checks and
  copies one column at a time, so the columns in front of the first missing one have been
  copied when the stage fails. What holds: for every list of required columns and every
  value map that lacks one of them, the stage fails with the error that carries the first
  missing column (in list order) and the template, the rest of the chain does not run
  (\<^verbatim>\<open>QueryApply\<close> returns that error), the context's query and positional arguments are
  untouched, and the named-parameter map has received exactly the required columns that
  precede the first missing one.
\<close>

theorem requireColumns_missing_column:
  assumes "\<not> set R \<subseteq> dom M"
  shows "\<exists>col. col \<in> set R \<and> col \<notin> dom M \<and> col = hd (dropWhile (\<lambda>c. c \<in> dom M) R)
     \<and> EnsureInputColsPipe R ctx pipes (M # others)
         = (Failed (MissingColumnError col (query ctx)),
            ctx\<lparr>nameArgs := nameArgs ctx ++ (M |` set (takeWhile (\<lambda>c. c \<in> dom M) R))\<rparr>)
     \<and> QueryApply_loop L (EnsureInputCols R) pipes ctx (M # ms) 0
         = Returns [] [] (Some (MissingColumnError col (query ctx)))"
proof -
  let ?col = "hd (dropWhile (\<lambda>c. c \<in> dom M) R)"
  have stage: "\<And>others. EnsureInputColsPipe R ctx pipes (M # others)
         = (Failed (MissingColumnError ?col (query ctx)),
            ctx\<lparr>nameArgs := nameArgs ctx ++ (M |` set (takeWhile (\<lambda>c. c \<in> dom M) R))\<rparr>)"
    by (simp add: EnsureInputColsPipe_def ensure_cols_first_missing [OF assms])
  have "QueryApply_loop L (EnsureInputCols R) pipes ctx (M # ms) 0
         = Returns [] [] (Some (MissingColumnError ?col (query ctx)))"
    by (subst QueryApply_loop.simps) (simp add: stage)
  with stage first_missing_in [OF assms] show ?thesis by blast
qed

theorem requireColumns_missing_column_witness:
  "\<not> set [''setting'', ''value''] \<subseteq> dom [''setting'' \<mapsto> (1::nat)]
   \<and> fst (EnsureInputColsPipe [''setting'', ''value''] (MakeCtxMaker sql_INSERT_CONFIG_SETTING_QUERY)
             [BuildQuery] [[''setting'' \<mapsto> (1::nat)]])
       = Failed (MissingColumnError ''value'' sql_INSERT_CONFIG_SETTING_QUERY)
   \<and> QueryApply_loop golib (EnsureInputCols [''setting'', ''value'']) [BuildQuery]
         (MakeCtxMaker sql_INSERT_CONFIG_SETTING_QUERY) [[''setting'' \<mapsto> (1::nat)]] 0
       = Returns [] [] (Some (MissingColumnError ''value'' sql_INSERT_CONFIG_SETTING_QUERY))"
  using requireColumns_missing_column
    [of "[''setting'', ''value'']" "[''setting'' \<mapsto> (1::nat)]"
        "MakeCtxMaker sql_INSERT_CONFIG_SETTING_QUERY" "[BuildQuery]" "[]" golib "[]"]
  by (simp add: MakeCtxMaker_def)

text \<open>
  The claim C5 as it is written fails: with the required columns \<open>setting, value\<close> and an
  input that has only \<open>setting\<close>, the stage fails on \<open>value\<close> after it has copied
  \<open>setting\<close> into the named-parameter map of the context.
\<close>

theorem requireColumns_partial_copy_counterexample:
  "fst (EnsureInputColsPipe [''setting'', ''value''] (MakeCtxMaker sql_INSERT_CONFIG_SETTING_QUERY)
          [BuildQuery] [[''setting'' \<mapsto> (1::nat)]])
     = Failed (MissingColumnError ''value'' sql_INSERT_CONFIG_SETTING_QUERY)
   \<and> nameArgs (snd (EnsureInputColsPipe [''setting'', ''value'']
          (MakeCtxMaker sql_INSERT_CONFIG_SETTING_QUERY) [BuildQuery] [[''setting'' \<mapsto> (1::nat)]]))
        ''setting'' = Some 1
   \<and> nameArgs (MakeCtxMaker sql_INSERT_CONFIG_SETTING_QUERY :: nat QueryContext) ''setting'' = None
   \<and> nameArgs (snd (EnsureInputColsPipe [''setting'', ''value'']
          (MakeCtxMaker sql_INSERT_CONFIG_SETTING_QUERY) [BuildQuery] [[''setting'' \<mapsto> (1::nat)]]))
       \<noteq> nameArgs (MakeCtxMaker sql_INSERT_CONFIG_SETTING_QUERY)"
proof -
  let ?r = "EnsureInputColsPipe [''setting'', ''value''] (MakeCtxMaker sql_INSERT_CONFIG_SETTING_QUERY)
          [BuildQuery] [[''setting'' \<mapsto> (1::nat)]]"
  have a: "fst ?r = Failed (MissingColumnError ''value'' sql_INSERT_CONFIG_SETTING_QUERY)"
    by (simp add: EnsureInputColsPipe_def MakeCtxMaker_def)
  have b: "nameArgs (snd ?r) ''setting'' = Some 1"
    by (simp add: EnsureInputColsPipe_def MakeCtxMaker_def)
  have c: "nameArgs (MakeCtxMaker sql_INSERT_CONFIG_SETTING_QUERY :: nat QueryContext) ''setting'' = None"
    by (simp add: MakeCtxMaker_def)
  from b c have d: "nameArgs (snd ?r) \<noteq> nameArgs (MakeCtxMaker sql_INSERT_CONFIG_SETTING_QUERY)"
    by (metis option.distinct(1))
  from a b c d show ?thesis by (intro conjI)
qed

subsection \<open>The patch stage\<close>

lemma patch_cols_eq:
  "patch_cols W M (fs, na, b) =
     (fs @ map setstring (filter (\<lambda>c. c \<in> dom M) W), na ++ (M |` set W), b \<or> dom M \<inter> set W \<noteq> {})"
proof (induction W arbitrary: fs na b)
  case Nil
  then show ?case by simp
next
  case (Cons col W)
  show ?case
  proof (cases "M col")
    case None
    have eq: "na ++ (M |` set W) = na ++ (M |` set (col # W))"
      using None by (auto simp: map_add_def restrict_map_def fun_eq_iff split: option.splits)
    have "patch_cols (col # W) M (fs, na, b) = patch_cols W M (fs, na, b)"
      using None by simp
    also have "\<dots> = (fs @ map setstring (filter (\<lambda>c. c \<in> dom M) W), na ++ (M |` set W),
                        b \<or> dom M \<inter> set W \<noteq> {})"
      by (rule Cons.IH)
    also have "\<dots> = (fs @ map setstring (filter (\<lambda>c. c \<in> dom M) (col # W)), na ++ (M |` set (col # W)),
                        b \<or> dom M \<inter> set (col # W) \<noteq> {})"
      using None by (simp only: eq) (auto simp: domIff)
    finally show ?thesis .
  next
    case (Some v)
    have eq: "na(col \<mapsto> v) ++ (M |` set W) = na ++ (M |` set (col # W))"
      using Some by (auto simp: map_add_def restrict_map_def fun_eq_iff split: option.splits)
    have "patch_cols (col # W) M (fs, na, b) = patch_cols W M (fs @ [setstring col], na(col \<mapsto> v), True)"
      using Some by simp
    also have "\<dots> = ((fs @ [setstring col]) @ map setstring (filter (\<lambda>c. c \<in> dom M) W),
                        na(col \<mapsto> v) ++ (M |` set W), True \<or> dom M \<inter> set W \<noteq> {})"
      by (rule Cons.IH [of "fs @ [setstring col]" "na(col \<mapsto> v)" True])
    also have "\<dots> = (fs @ map setstring (filter (\<lambda>c. c \<in> dom M) (col # W)), na ++ (M |` set (col # W)),
                        b \<or> dom M \<inter> set (col # W) \<noteq> {})"
      using Some by (simp only: eq) (auto simp: domIff)
    finally show ?thesis .
  qed
qed








subsection \<open>The driving loop\<close>

lemma call_Pipe_next:
  "call_Pipe L p ctx pipes argv = (Continue (Some (p', pipes')), ctx') \<Longrightarrow>
     pipes = p' # pipes' \<and> p \<noteq> BuildQuery"
  by (cases p)
     (auto simp: EnsureInputColsPipe_def PatchFilterPipe_def BuildQueryPipe_def Let_def
           split: list.splits prod.splits option.splits if_splits sum.splits)

lemma consumed_not_Build: "p \<noteq> BuildQuery \<Longrightarrow> consumed (p # pipes) = Suc (consumed pipes)"
  by (cases p) simp_all

lemma no_value_map_panics:
  "length stringmaps \<le> idx \<Longrightarrow> p \<noteq> BuildQuery \<Longrightarrow>
     QueryApply_loop L p pipes ctx stringmaps idx = Panics"
  by (subst QueryApply_loop.simps, cases p)
     (simp_all add: EnsureInputColsPipe_def PatchFilterPipe_def)

text \<open>
  C6 (the code does not do what the claim says). The claim: a stage that is reached after
  the supplied value maps have run out receives an empty map, and the invocation returns
  the missing-column error. What \<^verbatim>\<open>QueryApply\<close> does: it calls the stage with no
  argument at all, and the stage reads \<^verbatim>\<open>args[0]\<close> without a check. A chain whose
  first stage is \<^verbatim>\<open>EnsureInputColsPipe\<close> or \<^verbatim>\<open>PatchFilterPipe\<close>, applied to no value
  map, panics; so does the deck-update chain when it is given the map for its first
  stage only.
\<close>

theorem QueryApply_without_value_map_panics:
  "(p \<noteq> BuildQuery \<longrightarrow> QueryApply L (composePipes baseQuery (p # pipes)) [] = Panics)
   \<and> QueryApply L FETCH_CONFIG_SETTING_QUERY [] = Panics
   \<and> (''deck_id'' \<in> dom M \<longrightarrow> QueryApply L UPDATE_DECK_QUERY [M] = Panics)"
proof (intro conjI impI)
  assume "p \<noteq> BuildQuery"
  then show "QueryApply L (composePipes baseQuery (p # pipes)) [] = Panics"
    by (simp add: QueryApply_def composePipes_def no_value_map_panics)
next
  show "QueryApply L FETCH_CONFIG_SETTING_QUERY [] = Panics"
    by (simp add: QueryApply_def composePipes_def FETCH_CONFIG_SETTING_QUERY_def no_value_map_panics)
next
  assume "''deck_id'' \<in> dom M"
  then obtain v where v: "M ''deck_id'' = Some v" by auto
  have first: "EnsureInputColsPipe [''deck_id''] (MakeCtxMaker sql_UPDATE_DECK_QUERY)
                 [PatchFilter [''name''], BuildQuery] [M]
               = (Continue (Some (PatchFilter [''name''], [BuildQuery])),
                  (MakeCtxMaker sql_UPDATE_DECK_QUERY)\<lparr>nameArgs := [''deck_id'' \<mapsto> v]\<rparr>)"
    using v by (simp add: EnsureInputColsPipe_def MakeCtxMaker_def)
  have "QueryApply_loop L (EnsureInputCols [''deck_id'']) [PatchFilter [''name''], BuildQuery]
          (MakeCtxMaker sql_UPDATE_DECK_QUERY) [M] 0
        = QueryApply_loop L (PatchFilter [''name'']) [BuildQuery]
            ((MakeCtxMaker sql_UPDATE_DECK_QUERY)\<lparr>nameArgs := [''deck_id'' \<mapsto> v]\<rparr>) [M] 1"
    by (subst QueryApply_loop.simps) (simp add: first)
  also have "\<dots> = Panics"
    by (rule no_value_map_panics) simp_all
  finally show "QueryApply L UPDATE_DECK_QUERY [M] = Panics"
    by (simp add: QueryApply_def composePipes_def UPDATE_DECK_QUERY_def)
qed

theorem QueryApply_without_value_map_panics_witness:
  "EnsureInputCols [''parent''] \<noteq> BuildQuery
   \<and> QueryApply (golib :: nat externals) (composePipes sql_DECK_CHILDREN_QUERY [EnsureInputCols [''parent''], BuildQuery]) []
       = Panics
   \<and> QueryApply (golib :: nat externals) FETCH_CONFIG_SETTING_QUERY [] = Panics
   \<and> ''deck_id'' \<in> dom [''deck_id'' \<mapsto> (7::nat)]
   \<and> QueryApply golib UPDATE_DECK_QUERY [[''deck_id'' \<mapsto> (7::nat)]] = Panics"
  using QueryApply_without_value_map_panics
    [of "EnsureInputCols [''parent'']" "golib :: nat externals" sql_DECK_CHILDREN_QUERY "[BuildQuery]"
        "[''deck_id'' \<mapsto> (7::nat)]"]
  by simp

lemma QueryApply_loop_extra:
  "idx + consumed (p # pipes) \<le> length ms \<Longrightarrow>
     QueryApply_loop L p pipes ctx (ms @ extra) idx = QueryApply_loop L p pipes ctx ms idx"
proof (induction L p pipes ctx ms idx rule: QueryApply_loop.induct)
  case (1 L p pipes ctx stringmaps idx)
  show ?case
  proof (cases "p = BuildQuery")
    case True
    show ?thesis
      apply (subst QueryApply_loop.simps)
      apply (subst (2) QueryApply_loop.simps)
      apply (simp add: True BuildQueryPipe_def Let_def split: sum.splits prod.splits)
      done
  next
    case False
    with "1.prems" have lt: "idx < length stringmaps" by (simp add: consumed_not_Build)
    obtain r ctx' where call: "call_Pipe L p ctx pipes [stringmaps ! idx] = (r, ctx')"
      by (cases "call_Pipe L p ctx pipes [stringmaps ! idx]")
    show ?thesis
    proof (cases r)
      case (Continue nxt)
      show ?thesis
      proof (cases nxt)
        case None
        with Continue call lt show ?thesis
          apply (subst QueryApply_loop.simps)
          apply (subst (2) QueryApply_loop.simps)
          apply (simp add: nth_append)
          done
      next
        case (Some pr)
        obtain p' pipes' where pr: "pr = (p', pipes')" by (cases pr)
        from call Continue Some pr
        have c: "call_Pipe L p ctx pipes [stringmaps ! idx] = (Continue (Some (p', pipes')), ctx')"
          by simp
        from call_Pipe_next [OF c] have pipes: "pipes = p' # pipes'" by simp
        with "1.prems" False have le: "(idx + 1) + consumed (p' # pipes') \<le> length stringmaps"
          by (simp add: consumed_not_Build)
        have IH: "QueryApply_loop L p' pipes' ctx' (stringmaps @ extra) (idx + 1)
                   = QueryApply_loop L p' pipes' ctx' stringmaps (idx + 1)"
          using "1.IH" [of "[stringmaps ! idx]" "idx + 1" "Continue (Some (p', pipes'))" ctx'
                           "Some (p', pipes')" "(p', pipes')" p' pipes'] c lt le
          by simp
        show ?thesis
          apply (subst QueryApply_loop.simps)
          apply (subst (2) QueryApply_loop.simps)
          using c lt IH apply (simp add: nth_append)
          done
      qed
    qed (use call lt in \<open>subst QueryApply_loop.simps, subst (2) QueryApply_loop.simps, simp add: nth_append\<close>)+
  qed
qed

text \<open>
  C10. A chain reads one value map for each stage in front of its \<^verbatim>\<open>BuildQueryPipe\<close>
  (\<open>consumed\<close>). For every chain, those of the catalog among them, value maps supplied
  beyond that number have no influence: \<^verbatim>\<open>QueryApply\<close> with the extra maps gives exactly
  the result (or the panic) it gives with the consumed prefix alone.
\<close>

theorem extra_value_maps_ignored:
  "length ms = consumed (snd pipe) \<Longrightarrow> QueryApply L pipe (ms @ extra) = QueryApply L pipe ms"
proof (cases pipe)
  case (Pair baseQuery pipes)
  assume len: "length ms = consumed (snd pipe)"
  show ?thesis
  proof (cases pipes)
    case Nil
    with Pair show ?thesis by (simp add: QueryApply_def)
  next
    case (Cons firstPipe restPipes)
    with Pair len have "0 + consumed (firstPipe # restPipes) \<le> length ms" by simp
    from QueryApply_loop_extra [OF this] Pair Cons show ?thesis by (simp add: QueryApply_def)
  qed
qed

theorem extra_value_maps_ignored_witness:
  "length [[''deck_id'' \<mapsto> (7::nat)], [''name'' \<mapsto> 42]] = consumed (snd UPDATE_DECK_QUERY)
   \<and> QueryApply golib UPDATE_DECK_QUERY
        ([[''deck_id'' \<mapsto> (7::nat)], [''name'' \<mapsto> 42]] @ [[''name'' \<mapsto> 0], Map.empty])
      = QueryApply golib UPDATE_DECK_QUERY [[''deck_id'' \<mapsto> (7::nat)], [''name'' \<mapsto> 42]]"
  using extra_value_maps_ignored
    [of "[[''deck_id'' \<mapsto> (7::nat)], [''name'' \<mapsto> 42]]" UPDATE_DECK_QUERY golib
        "[[''name'' \<mapsto> 0], Map.empty]"]
  by (simp add: UPDATE_DECK_QUERY_def composePipes_def)

subsection \<open>The context along one invocation\<close>

lemma ensure_cols_dom: "ensure_cols R M na = (x, na') \<Longrightarrow> dom na \<subseteq> dom na'"
proof (induction R arbitrary: na)
  case Nil
  then show ?case by simp
next
  case (Cons col R)
  show ?case
  proof (cases "M col")
    case None
    with Cons.prems show ?thesis by simp
  next
    case (Some v)
    with Cons.prems have "ensure_cols R M (na(col \<mapsto> v)) = (x, na')" by simp
    then have "dom (na(col \<mapsto> v)) \<subseteq> dom na'" by (rule Cons.IH [of "na(col \<mapsto> v)"])
    then show ?thesis by simp
  qed
qed

lemma patch_cols_dom:
  assumes "patch_cols W M (fs, na, b) = (fs', na', b')"
  shows "dom na \<subseteq> dom na'"
proof -
  from assms have "na' = na ++ (M |` set W)" by (simp add: patch_cols_eq)
  then show ?thesis by simp
qed

lemma call_Pipe_context:
  assumes "call_Pipe L p ctx pipes argv = (r, ctx')"
  shows "dom (nameArgs ctx) \<subseteq> dom (nameArgs ctx') \<and> (p \<noteq> BuildQuery \<longrightarrow> args ctx' = args ctx)"
proof (cases p)
  case (EnsureInputCols R)
  with assms show ?thesis
    by (auto simp: EnsureInputColsPipe_def split: list.splits prod.splits option.splits
             dest!: ensure_cols_dom)
next
  case (PatchFilter W)
  with assms show ?thesis
    by (auto simp: PatchFilterPipe_def Let_def split: list.splits prod.splits if_splits
             dest!: patch_cols_dom)
next
  case BuildQuery
  with assms show ?thesis
    by (auto simp: BuildQueryPipe_def split: sum.splits prod.splits)
qed

lemma QueryApply_trace_invariant:
  "args ctx = [] \<Longrightarrow>
     chained ctx (QueryApply_trace L p pipes ctx stringmaps idx)
     \<and> (\<forall>(s, c, r, c') \<in> set (QueryApply_trace L p pipes ctx stringmaps idx).
           args c = [] \<and> (s \<noteq> BuildQuery \<longrightarrow> args c' = []) \<and> dom (nameArgs c) \<subseteq> dom (nameArgs c'))
     \<and> BuildQuery \<notin> set (map fst (butlast (QueryApply_trace L p pipes ctx stringmaps idx)))
     \<and> QueryApply_trace L p pipes ctx stringmaps idx \<noteq> []"
proof (induction L p pipes ctx stringmaps idx rule: QueryApply_trace.induct)
  case (1 L p pipes ctx stringmaps idx)
  let ?argv = "if idx < length stringmaps then [stringmaps ! idx] else []"
  let ?idx' = "if idx < length stringmaps then idx + 1 else idx"
  obtain r ctx' where call: "call_Pipe L p ctx pipes ?argv = (r, ctx')"
    by (cases "call_Pipe L p ctx pipes ?argv")
  note step = call_Pipe_context [OF call]
  show ?case
  proof (cases "\<exists>p' pipes'. r = Continue (Some (p', pipes'))")
    case False
    then have tr: "QueryApply_trace L p pipes ctx stringmaps idx = [(p, ctx, r, ctx')]"
      using call
      by (subst QueryApply_trace.simps) (auto simp: Let_def split: reply.splits option.splits)
    show ?thesis using step "1.prems" by (simp add: tr)
  next
    case True
    then obtain p' pipes' where r: "r = Continue (Some (p', pipes'))" by blast
    have tr: "QueryApply_trace L p pipes ctx stringmaps idx
                = (p, ctx, r, ctx') # QueryApply_trace L p' pipes' ctx' stringmaps ?idx'"
      using call r by (subst QueryApply_trace.simps) (simp add: Let_def)
    from call r call_Pipe_next have nb: "p \<noteq> BuildQuery" by blast
    with step "1.prems" have a': "args ctx' = []" by simp
    have IH: "chained ctx' (QueryApply_trace L p' pipes' ctx' stringmaps ?idx')
     \<and> (\<forall>(s, c, r, c') \<in> set (QueryApply_trace L p' pipes' ctx' stringmaps ?idx').
           args c = [] \<and> (s \<noteq> BuildQuery \<longrightarrow> args c' = []) \<and> dom (nameArgs c) \<subseteq> dom (nameArgs c'))
     \<and> BuildQuery \<notin> set (map fst (butlast (QueryApply_trace L p' pipes' ctx' stringmaps ?idx')))
     \<and> QueryApply_trace L p' pipes' ctx' stringmaps ?idx' \<noteq> []"
      using "1.IH" [of ?argv ?idx' r ctx' "Some (p', pipes')" "(p', pipes')" p' pipes'] call r a'
      by simp
    show ?thesis using IH step "1.prems" nb a' by (simp add: tr)
  qed
qed

lemma QueryApply_loop_trace:
  "QueryApply_loop L p pipes ctx stringmaps idx
     = apply_result_of (last (QueryApply_trace L p pipes ctx stringmaps idx))"
proof (induction L p pipes ctx stringmaps idx rule: QueryApply_trace.induct)
  case (1 L p pipes ctx stringmaps idx)
  let ?argv = "if idx < length stringmaps then [stringmaps ! idx] else []"
  let ?idx' = "if idx < length stringmaps then idx + 1 else idx"
  obtain r ctx' where call: "call_Pipe L p ctx pipes ?argv = (r, ctx')"
    by (cases "call_Pipe L p ctx pipes ?argv")
  show ?case
  proof (cases "\<exists>p' pipes'. r = Continue (Some (p', pipes'))")
    case False
    then have tr: "QueryApply_trace L p pipes ctx stringmaps idx = [(p, ctx, r, ctx')]"
      using call
      by (subst QueryApply_trace.simps) (auto simp: Let_def split: reply.splits option.splits)
    from False call show ?thesis
      by (subst QueryApply_loop.simps) (auto simp: tr Let_def split: reply.splits option.splits)
  next
    case True
    then obtain p' pipes' where r: "r = Continue (Some (p', pipes'))" by blast
    have tr: "QueryApply_trace L p pipes ctx stringmaps idx
                = (p, ctx, r, ctx') # QueryApply_trace L p' pipes' ctx' stringmaps ?idx'"
      using call r by (subst QueryApply_trace.simps) (simp add: Let_def)
    have ne: "QueryApply_trace L p' pipes' ctx' stringmaps ?idx' \<noteq> []"
      by (subst QueryApply_trace.simps) (simp add: Let_def split: prod.splits reply.splits option.splits)
    have IH: "QueryApply_loop L p' pipes' ctx' stringmaps ?idx'
                = apply_result_of (last (QueryApply_trace L p' pipes' ctx' stringmaps ?idx'))"
      using "1.IH" [of ?argv ?idx' r ctx' "Some (p', pipes')" "(p', pipes')" p' pipes'] call r
      by simp
    show ?thesis
      using call r IH ne by (subst QueryApply_loop.simps) (simp add: tr Let_def)
  qed
qed

text \<open>
  C9. Take the record of the stage calls of one invocation of \<^verbatim>\<open>QueryApply\<close>: it starts
  from the fresh context, each call starts from the context the call before it left, and
  its last call decides what \<^verbatim>\<open>QueryApply\<close> returns. In every call of the record the
  positional-argument list is empty when the stage starts, and still empty when it stops
  unless the stage is \<^verbatim>\<open>BuildQueryPipe\<close>, which only ever is the last call; and every
  key of the named-parameter map at the start of a call is still a key when the call
  stops, whether the call succeeds, fails or panics.
\<close>

theorem positional_args_empty_until_build:
  "chained (MakeCtxMaker baseQuery)
     (QueryApply_trace L firstPipe restPipes (MakeCtxMaker baseQuery) stringmaps 0)
   \<and> (\<forall>(s, c, r, c') \<in> set (QueryApply_trace L firstPipe restPipes (MakeCtxMaker baseQuery) stringmaps 0).
         args c = [] \<and> (s \<noteq> BuildQuery \<longrightarrow> args c' = []) \<and> dom (nameArgs c) \<subseteq> dom (nameArgs c'))
   \<and> BuildQuery \<notin> set (map fst (butlast
         (QueryApply_trace L firstPipe restPipes (MakeCtxMaker baseQuery) stringmaps 0)))
   \<and> QueryApply L (composePipes baseQuery (firstPipe # restPipes)) stringmaps
       = apply_result_of (last
           (QueryApply_trace L firstPipe restPipes (MakeCtxMaker baseQuery) stringmaps 0))"
proof -
  have "args (MakeCtxMaker baseQuery :: 'a QueryContext) = []"
    by (simp add: MakeCtxMaker_def)
  from QueryApply_trace_invariant [OF this, of L firstPipe restPipes stringmaps 0]
       QueryApply_loop_trace [of L firstPipe restPipes "MakeCtxMaker baseQuery" stringmaps 0]
  show ?thesis
    by (simp add: QueryApply_def composePipes_def)
qed

theorem positional_args_empty_until_build_witness:
  "chained (MakeCtxMaker sql_UPDATE_DECK_QUERY)
     (QueryApply_trace golib (EnsureInputCols [''deck_id'']) [PatchFilter [''name''], BuildQuery]
        (MakeCtxMaker sql_UPDATE_DECK_QUERY) [[''deck_id'' \<mapsto> (7::nat)], [''name'' \<mapsto> 42]] 0)
   \<and> list_all (\<lambda>(s, c, r, c').
         args c = [] \<and> (s \<noteq> BuildQuery \<longrightarrow> args c' = []) \<and> dom (nameArgs c) \<subseteq> dom (nameArgs c'))
       (QueryApply_trace golib (EnsureInputCols [''deck_id'']) [PatchFilter [''name''], BuildQuery]
          (MakeCtxMaker sql_UPDATE_DECK_QUERY) [[''deck_id'' \<mapsto> (7::nat)], [''name'' \<mapsto> 42]] 0)
   \<and> QueryApply golib UPDATE_DECK_QUERY [[''deck_id'' \<mapsto> (7::nat)], [''name'' \<mapsto> 42]]
       = apply_result_of (last
           (QueryApply_trace golib (EnsureInputCols [''deck_id'']) [PatchFilter [''name''], BuildQuery]
              (MakeCtxMaker sql_UPDATE_DECK_QUERY) [[''deck_id'' \<mapsto> (7::nat)], [''name'' \<mapsto> 42]] 0))"
  using positional_args_empty_until_build
    [of sql_UPDATE_DECK_QUERY golib "EnsureInputCols [''deck_id'']" "[PatchFilter [''name''], BuildQuery]"
        "[[''deck_id'' \<mapsto> (7::nat)], [''name'' \<mapsto> 42]]"]
  by (simp add: list_all_iff UPDATE_DECK_QUERY_def)

subsection \<open>The build stage\<close>

lemma bind_names_bound:
  "set names \<subseteq> dom arg \<Longrightarrow> bind_names names arg = Inr (map (\<lambda>n. the (arg n)) names)"
  by (induction names) auto

lemma bind_names_unbound:
  "\<not> set names \<subseteq> dom arg \<Longrightarrow>
     bind_names names arg = Inl (ParameterBindingError (hd (dropWhile (\<lambda>n. n \<in> dom arg) names)))"
proof (induction names)
  case Nil
  then show ?case by simp
next
  case (Cons n names)
  show ?case
  proof (cases "arg n")
    case None
    then show ?thesis by (simp add: domIff)
  next
    case (Some v)
    with Cons.prems have "\<not> set names \<subseteq> dom arg" by auto
    from Cons.IH [OF this] Some show ?thesis by (simp add: domI)
  qed
qed

lemma takeWhile_stop: "ys = [] \<or> \<not> P (hd ys) \<Longrightarrow> takeWhile P (xs @ ys) = takeWhile P xs"
  by (induction xs) (auto, cases ys, auto)

lemma dropWhile_stop: "ys = [] \<or> \<not> P (hd ys) \<Longrightarrow> dropWhile P (xs @ ys) = dropWhile P xs @ ys"
  by (induction xs) (auto, cases ys, auto)

lemma named_scan_append:
  "b = [] \<or> \<not> is_name_char (hd b) \<Longrightarrow>
     named_scan (a @ b) = (fst (named_scan a) @ fst (named_scan b), snd (named_scan a) @ snd (named_scan b))"
proof (induction a rule: named_scan.induct)
  case 1
  then show ?case by simp
next
  case (2 c qs)
  have tw: "takeWhile is_name_char (qs @ b) = takeWhile is_name_char qs"
    using takeWhile_stop [of b is_name_char qs] "2.prems" by blast
  have dw: "dropWhile is_name_char (qs @ b) = dropWhile is_name_char qs @ b"
    using dropWhile_stop [of b is_name_char qs] "2.prems" by blast
  show ?case
  proof (cases "c = CHR '':'' \<and> takeWhile is_name_char qs \<noteq> []")
    case True
    with "2.IH"(1) "2.prems" show ?thesis
      by (simp add: tw dw split: prod.splits)
  next
    case False
    with "2.IH"(2) "2.prems" show ?thesis
      by (auto simp add: tw dw split: prod.splits)
  qed
qed

lemma named_scan_placeholder:
  assumes "n \<noteq> []" "\<forall>c \<in> set n. is_name_char c" "post = [] \<or> \<not> is_name_char (hd post)"
  shows "named_scan (CHR '':'' # n @ post) = (CHR ''?'' # fst (named_scan post), n # snd (named_scan post))"
proof -
  have "takeWhile is_name_char (n @ post) = takeWhile is_name_char n"
    using takeWhile_stop [of post is_name_char n] assms(3) by blast
  with assms(2) have tw: "takeWhile is_name_char (n @ post) = n" by simp
  have "dropWhile is_name_char (n @ post) = dropWhile is_name_char n @ post"
    using dropWhile_stop [of post is_name_char n] assms(3) by blast
  with assms(2) have dw: "dropWhile is_name_char (n @ post) = post" by simp
  from assms(1) show ?thesis by (simp add: tw dw split: prod.splits)
qed

lemma not_name_chars: "\<not> is_name_char CHR ''?''" "\<not> is_name_char CHR '':''"
  by (simp_all add: is_name_char_def)

lemma named_scan_head:
  "takeWhile is_name_char (fst (named_scan q)) = [] \<longleftrightarrow> takeWhile is_name_char q = []"
  by (cases q) (auto simp: not_name_chars split: prod.splits)

lemma named_scan_no_params_left: "snd (named_scan (fst (named_scan q))) = []"
proof (induction q rule: named_scan.induct)
  case 1
  then show ?case by simp
next
  case (2 b qs)
  show ?case
  proof (cases "b = CHR '':'' \<and> takeWhile is_name_char qs \<noteq> []")
    case True
    obtain r ns where sc: "named_scan (dropWhile is_name_char qs) = (r, ns)"
      by (cases "named_scan (dropWhile is_name_char qs)")
    with "2.IH"(1) True have "snd (named_scan r) = []" by simp
    with True sc show ?thesis by (auto simp: not_name_chars split: prod.splits)
  next
    case False
    obtain r ns where sc: "named_scan qs = (r, ns)" by (cases "named_scan qs")
    with "2.IH"(2) False have ih: "snd (named_scan r) = []" by simp
    have hd: "takeWhile is_name_char r = [] \<longleftrightarrow> takeWhile is_name_char qs = []"
      using named_scan_head [of qs] sc by simp
    from False sc ih hd show ?thesis by (auto split: prod.splits)
  qed
qed

lemma count_list_dropWhile:
  "\<not> P c \<Longrightarrow> count_list (dropWhile P xs) c = count_list xs c"
  by (induction xs) auto

lemma named_scan_count:
  "count_list (fst (named_scan q)) CHR ''?'' = count_list q CHR ''?'' + length (snd (named_scan q))"
proof (induction q rule: named_scan.induct)
  case 1
  then show ?case by simp
next
  case (2 b qs)
  show ?case
  proof (cases "b = CHR '':'' \<and> takeWhile is_name_char qs \<noteq> []")
    case True
    with "2.IH"(1) show ?thesis
      by (auto simp: count_list_dropWhile not_name_chars split: prod.splits)
  next
    case False
    with "2.IH"(2) show ?thesis
      by (auto split: prod.splits)
  qed
qed

lemma named_scan_FETCH_CONFIG_SETTING_QUERY:
  "named_scan sql_FETCH_CONFIG_SETTING_QUERY
     = (''\<newline>    SELECT setting, value FROM Config WHERE setting = ?;\<newline>    '', [''setting''])"
  by code_simp

text \<open>
  C7, against the model of \<^verbatim>\<open>sqlx.Named\<close> written from the spec. \<^verbatim>\<open>BuildQueryPipe\<close>
  hands the template and the named-parameter map to \<^verbatim>\<open>sqlx.Named\<close> and returns its
  error, or stores its query and values in the context. With the modelled function: if
  some named placeholder of the template has no entry in the map the stage fails with the
  binding error for the first such placeholder, and the context is unchanged; otherwise it
  ends the chain with the template rewritten to positional placeholders and the values of
  the placeholders in template order. The rewritten text has no named placeholder left and
  one more \<open>?\<close> for each placeholder; a placeholder that stands after a text \<open>pre\<close> comes
  after the placeholders of \<open>pre\<close> and before those of the text that follows it.
\<close>

theorem finalize_binds_named_parameters:
  assumes "Named L = sqlx_Named"
  shows
   "(set (named_params (query ctx)) \<subseteq> dom (nameArgs ctx) \<longrightarrow>
       BuildQueryPipe L ctx pipes argv
         = (Continue None,
            ctx\<lparr>query := positional (query ctx),
                args := map (\<lambda>n. the (nameArgs ctx n)) (named_params (query ctx))\<rparr>))
    \<and> (\<not> set (named_params (query ctx)) \<subseteq> dom (nameArgs ctx) \<longrightarrow>
         (\<exists>n. n \<in> set (named_params (query ctx)) \<and> n \<notin> dom (nameArgs ctx)
              \<and> n = hd (dropWhile (\<lambda>n. n \<in> dom (nameArgs ctx)) (named_params (query ctx)))
              \<and> BuildQueryPipe L ctx pipes argv = (Failed (ParameterBindingError n), ctx)))
    \<and> named_params (positional q) = []
    \<and> count_list (positional q) CHR ''?'' = count_list q CHR ''?'' + length (named_params q)
    \<and> (n \<noteq> [] \<and> (\<forall>c \<in> set n. is_name_char c) \<and> (post = [] \<or> \<not> is_name_char (hd post)) \<longrightarrow>
          named_params (pre @ '':'' @ n @ post) = named_params pre @ [n] @ named_params post
          \<and> positional (pre @ '':'' @ n @ post) = positional pre @ ''?'' @ positional post)"
proof -
  have ok: "set (named_params (query ctx)) \<subseteq> dom (nameArgs ctx) \<longrightarrow>
       BuildQueryPipe L ctx pipes argv
         = (Continue None,
            ctx\<lparr>query := positional (query ctx),
                args := map (\<lambda>n. the (nameArgs ctx n)) (named_params (query ctx))\<rparr>)"
    by (simp add: BuildQueryPipe_def assms sqlx_Named_def bind_names_bound)
  have bad: "\<not> set (named_params (query ctx)) \<subseteq> dom (nameArgs ctx) \<longrightarrow>
         (\<exists>n. n \<in> set (named_params (query ctx)) \<and> n \<notin> dom (nameArgs ctx)
              \<and> n = hd (dropWhile (\<lambda>n. n \<in> dom (nameArgs ctx)) (named_params (query ctx)))
              \<and> BuildQueryPipe L ctx pipes argv = (Failed (ParameterBindingError n), ctx))"
  proof
    assume a: "\<not> set (named_params (query ctx)) \<subseteq> dom (nameArgs ctx)"
    let ?n = "hd (dropWhile (\<lambda>n. n \<in> dom (nameArgs ctx)) (named_params (query ctx)))"
    have "BuildQueryPipe L ctx pipes argv = (Failed (ParameterBindingError ?n), ctx)"
      by (simp add: BuildQueryPipe_def assms sqlx_Named_def bind_names_unbound [OF a])
    with first_missing_in [OF a]
    show "\<exists>n. n \<in> set (named_params (query ctx)) \<and> n \<notin> dom (nameArgs ctx)
              \<and> n = hd (dropWhile (\<lambda>n. n \<in> dom (nameArgs ctx)) (named_params (query ctx)))
              \<and> BuildQueryPipe L ctx pipes argv = (Failed (ParameterBindingError n), ctx)"
      by blast
  qed
  have none_left: "named_params (positional q) = []"
    by (simp add: named_params_def positional_def named_scan_no_params_left)
  have count: "count_list (positional q) CHR ''?'' = count_list q CHR ''?'' + length (named_params q)"
    by (simp add: named_params_def positional_def named_scan_count)
  have order: "n \<noteq> [] \<and> (\<forall>c \<in> set n. is_name_char c) \<and> (post = [] \<or> \<not> is_name_char (hd post)) \<longrightarrow>
          named_params (pre @ '':'' @ n @ post) = named_params pre @ [n] @ named_params post
          \<and> positional (pre @ '':'' @ n @ post) = positional pre @ ''?'' @ positional post"
  proof
    assume a: "n \<noteq> [] \<and> (\<forall>c \<in> set n. is_name_char c) \<and> (post = [] \<or> \<not> is_name_char (hd post))"
    have "named_scan (pre @ CHR '':'' # n @ post)
            = (fst (named_scan pre) @ fst (named_scan (CHR '':'' # n @ post)),
               snd (named_scan pre) @ snd (named_scan (CHR '':'' # n @ post)))"
      by (rule named_scan_append) (simp add: not_name_chars)
    moreover have "named_scan (CHR '':'' # n @ post)
            = (CHR ''?'' # fst (named_scan post), n # snd (named_scan post))"
      using a by (intro named_scan_placeholder) simp_all
    ultimately show "named_params (pre @ '':'' @ n @ post) = named_params pre @ [n] @ named_params post
          \<and> positional (pre @ '':'' @ n @ post) = positional pre @ ''?'' @ positional post"
      by (simp add: named_params_def positional_def)
  qed
  from ok bad none_left count order show ?thesis by (intro conjI)
qed

theorem finalize_binds_named_parameters_witness:
  "Named (golib :: nat externals) = sqlx_Named
   \<and> set (named_params sql_FETCH_CONFIG_SETTING_QUERY) \<subseteq> dom [''setting'' \<mapsto> (5::nat)]
   \<and> BuildQueryPipe golib
        \<lparr>query = sql_FETCH_CONFIG_SETTING_QUERY, nameArgs = [''setting'' \<mapsto> (5::nat)], args = []\<rparr> [] []
      = (Continue None,
         \<lparr>query = ''\<newline>    SELECT setting, value FROM Config WHERE setting = ?;\<newline>    '',
          nameArgs = [''setting'' \<mapsto> (5::nat)], args = [5]\<rparr>)
   \<and> \<not> set (named_params sql_FETCH_CONFIG_SETTING_QUERY) \<subseteq> dom (Map.empty :: nat StringMap)
   \<and> BuildQueryPipe (golib :: nat externals)
        \<lparr>query = sql_FETCH_CONFIG_SETTING_QUERY, nameArgs = Map.empty, args = []\<rparr> [] []
      = (Failed (ParameterBindingError ''setting''),
         \<lparr>query = sql_FETCH_CONFIG_SETTING_QUERY, nameArgs = Map.empty, args = []\<rparr>)"
proof -
  have lib: "Named (golib :: nat externals) = sqlx_Named" by (simp add: golib_def)
  have np: "named_params sql_FETCH_CONFIG_SETTING_QUERY = [''setting'']"
    and po: "positional sql_FETCH_CONFIG_SETTING_QUERY
               = ''\<newline>    SELECT setting, value FROM Config WHERE setting = ?;\<newline>    ''"
    by (simp_all add: named_params_def positional_def named_scan_FETCH_CONFIG_SETTING_QUERY)
  from finalize_binds_named_parameters
         [OF lib, of "\<lparr>query = sql_FETCH_CONFIG_SETTING_QUERY, nameArgs = [''setting'' \<mapsto> (5::nat)], args = []\<rparr>"
            "[]" "[]"]
  have a: "BuildQueryPipe golib
        \<lparr>query = sql_FETCH_CONFIG_SETTING_QUERY, nameArgs = [''setting'' \<mapsto> (5::nat)], args = []\<rparr> [] []
      = (Continue None,
         \<lparr>query = ''\<newline>    SELECT setting, value FROM Config WHERE setting = ?;\<newline>    '',
          nameArgs = [''setting'' \<mapsto> (5::nat)], args = [5]\<rparr>)"
    by (simp add: np po)
  from finalize_binds_named_parameters
         [OF lib, of "\<lparr>query = sql_FETCH_CONFIG_SETTING_QUERY, nameArgs = Map.empty, args = []\<rparr>"
            "[]" "[]"]
  have b: "BuildQueryPipe (golib :: nat externals)
        \<lparr>query = sql_FETCH_CONFIG_SETTING_QUERY, nameArgs = Map.empty, args = []\<rparr> [] []
      = (Failed (ParameterBindingError ''setting''),
         \<lparr>query = sql_FETCH_CONFIG_SETTING_QUERY, nameArgs = Map.empty, args = []\<rparr>)"
    by (simp add: np)
  from lib a b show ?thesis by (simp add: np)
qed

subsection \<open>The catalog at work\<close>

lemma catalog_consumed: "map (\<lambda>pipe. consumed (snd pipe)) catalog = [1, 1, 1, 1, 2, 1, 1]"
  by (simp add: catalog_def composePipes_def FETCH_CONFIG_SETTING_QUERY_def SET_CONFIG_SETTING_QUERY_def
        CREATE_NEW_DECK_QUERY_def FETCH_DECK_QUERY_def UPDATE_DECK_QUERY_def
        ASSOCIATE_DECK_AS_CHILD_QUERY_def DECK_CHILDREN_QUERY_def)

lemma deck_update_example:
  "QueryApply golib UPDATE_DECK_QUERY [[''deck_id'' \<mapsto> (7::nat)], [''name'' \<mapsto> 42]]
     = Returns ''\<newline>    UPDATE Decks\<newline>    SET\<newline>    name = ?\<newline>    WHERE deck_id = ?\<newline>    ''
         [42, 7] None"
  by code_simp

lemma deck_update_nothing_patched:
  "QueryApply golib UPDATE_DECK_QUERY [[''deck_id'' \<mapsto> (7::nat)], [''title'' \<mapsto> 42]]
     = Returns [] [] (Some EmptyPatchError)"
  by code_simp

lemma associate_example:
  "QueryApply golib ASSOCIATE_DECK_AS_CHILD_QUERY [[''parent'' \<mapsto> (1::nat), ''child'' \<mapsto> 2]]
     = Returns (positional sql_ASSOCIATE_DECK_AS_CHILD_QUERY) [2, 1, 2, 2] None"
  by code_simp

section \<open>Properties of the closure table\<close>

subsection \<open>Inserting under OR IGNORE\<close>

lemma insert_or_ignore_present: "pk r \<in> pk ` set t \<Longrightarrow> insert_or_ignore t r = t"
  by (simp add: insert_or_ignore_def)

lemma insert_or_ignore_new: "pk r \<notin> pk ` set t \<Longrightarrow> insert_or_ignore t r = t @ [r]"
  by (simp add: insert_or_ignore_def)

lemma foldl_ignore_prefix:
  "\<exists>added. foldl insert_or_ignore t rows = t @ added \<and> set added \<subseteq> set rows"
proof (induction rows arbitrary: t)
  case Nil
  then show ?case by simp
next
  case (Cons r rows)
  from Cons.IH [of "insert_or_ignore t r"] obtain added
    where a: "foldl insert_or_ignore (insert_or_ignore t r) rows = insert_or_ignore t r @ added"
      and s: "set added \<subseteq> set rows" by blast
  show ?case
  proof (cases "pk r \<in> pk ` set t")
    case True
    with a have "foldl insert_or_ignore t (r # rows) = t @ added"
      by (simp add: insert_or_ignore_present)
    moreover from s have "set added \<subseteq> set (r # rows)" by auto
    ultimately show ?thesis by blast
  next
    case False
    with a have "foldl insert_or_ignore t (r # rows) = t @ (r # added)"
      by (simp add: insert_or_ignore_new)
    moreover from s have "set (r # added) \<subseteq> set (r # rows)" by auto
    ultimately show ?thesis by blast
  qed
qed

lemma foldl_ignore_keys:
  "pk ` set (foldl insert_or_ignore t rows) = pk ` set t \<union> pk ` set rows"
proof (induction rows arbitrary: t)
  case Nil
  then show ?case by simp
next
  case (Cons r rows)
  have "pk ` set (insert_or_ignore t r) = insert (pk r) (pk ` set t)"
    by (cases "pk r \<in> pk ` set t") (auto simp: insert_or_ignore_present insert_or_ignore_new)
  with Cons.IH [of "insert_or_ignore t r"] show ?case by auto
qed

lemma foldl_ignore_present:
  "pk ` set rows \<subseteq> pk ` set t \<Longrightarrow> foldl insert_or_ignore t rows = t"
  by (induction rows) (simp_all add: insert_or_ignore_present)

lemma foldl_ignore_distinct:
  "distinct (map pk rows) \<Longrightarrow>
     foldl insert_or_ignore t rows = t @ filter (\<lambda>r. pk r \<notin> pk ` set t) rows"
proof (induction rows arbitrary: t)
  case Nil
  then show ?case by simp
next
  case (Cons r rows)
  from Cons.prems have d: "distinct (map pk rows)" and nr: "pk r \<notin> pk ` set rows" by auto
  show ?case
  proof (cases "pk r \<in> pk ` set t")
    case True
    with Cons.IH [OF d, of t] show ?thesis by (simp add: insert_or_ignore_present)
  next
    case False
    from nr have other: "\<And>x. x \<in> set rows \<Longrightarrow> pk x \<noteq> pk r" by (metis imageI)
    have "filter (\<lambda>x. pk x \<notin> pk ` set (t @ [r])) rows = filter (\<lambda>x. pk x \<notin> pk ` set t) rows"
      using other by (intro filter_cong refl) auto
    with False Cons.IH [OF d, of "t @ [r]"] show ?thesis by (simp add: insert_or_ignore_new)
  qed
qed

lemma foldl_ignore_pk:
  "distinct (map pk t) \<Longrightarrow> distinct (map pk (foldl insert_or_ignore t rows))"
proof (induction rows arbitrary: t)
  case Nil
  then show ?case by simp
next
  case (Cons r rows)
  have "distinct (map pk (insert_or_ignore t r))"
    using Cons.prems
    by (cases "pk r \<in> pk ` set t") (auto simp: insert_or_ignore_present insert_or_ignore_new)
  from Cons.IH [OF this] show ?case by simp
qed

lemma associate_rows_split:
  "associate_rows t p c = child_rows t p c @ [\<lparr>ancestor = c, descendent = c, depth = 0\<rparr>]"
  by (simp add: associate_rows_def)

lemma associate_rows_descendent: "r \<in> set (associate_rows t p c) \<Longrightarrow> descendent r = c"
  by (auto simp: associate_rows_def child_rows_def)

lemma pk_row: "pk \<lparr>ancestor = a, descendent = d, depth = n\<rparr> = (a, d)"
  by (simp add: pk_def)

lemma pk_eq: "pk r = (a, d) \<longleftrightarrow> ancestor r = a \<and> descendent r = d"
  by (simp add: pk_def)

lemma child_rows_Cons:
  "child_rows (r # t) p c =
     (if descendent r = p
      then \<lparr>ancestor = ancestor r, descendent = c, depth = depth r + 1\<rparr> # child_rows t p c
      else child_rows t p c)"
  by (simp add: child_rows_def)

lemma in_child_rows:
  "x \<in> set (child_rows t p c) \<longleftrightarrow>
     (\<exists>r \<in> set t. descendent r = p \<and> x = \<lparr>ancestor = ancestor r, descendent = c, depth = depth r + 1\<rparr>)"
  by (auto simp: child_rows_def)

lemma in_associate_rows:
  "x \<in> set (associate_rows t p c) \<longleftrightarrow>
     x = \<lparr>ancestor = c, descendent = c, depth = 0\<rparr>
     \<or> (\<exists>r \<in> set t. descendent r = p
           \<and> x = \<lparr>ancestor = ancestor r, descendent = c, depth = depth r + 1\<rparr>)"
  by (auto simp: associate_rows_def in_child_rows)

lemma child_rows_keys:
  "(a, d) \<in> pk ` set (child_rows t p c) \<longleftrightarrow> d = c \<and> (a, p) \<in> pk ` set t"
proof
  assume "(a, d) \<in> pk ` set (child_rows t p c)"
  then obtain x where x: "x \<in> set (child_rows t p c)" "pk x = (a, d)" by force
  from x(1) obtain r where r: "r \<in> set t" "descendent r = p"
      "x = \<lparr>ancestor = ancestor r, descendent = c, depth = depth r + 1\<rparr>"
    by (auto simp: in_child_rows)
  with x(2) have "a = ancestor r" "d = c" by (simp_all add: pk_row)
  with r have "pk r = (a, p)" by (simp add: pk_eq)
  with \<open>r \<in> set t\<close> \<open>d = c\<close> show "d = c \<and> (a, p) \<in> pk ` set t" by (metis imageI)
next
  assume "d = c \<and> (a, p) \<in> pk ` set t"
  then obtain r where r: "r \<in> set t" "pk r = (a, p)" "d = c" by force
  then have "ancestor r = a" "descendent r = p" by (simp_all add: pk_eq)
  with r have "\<lparr>ancestor = a, descendent = d, depth = depth r + 1\<rparr> \<in> set (child_rows t p c)"
    by (auto simp: in_child_rows)
  then have "pk \<lparr>ancestor = a, descendent = d, depth = depth r + 1\<rparr> \<in> pk ` set (child_rows t p c)"
    by (rule imageI)
  then show "(a, d) \<in> pk ` set (child_rows t p c)" by (simp add: pk_row)
qed

lemma child_rows_distinct:
  "distinct (map pk t) \<Longrightarrow> distinct (map pk (child_rows t p c))"
proof (induction t)
  case Nil
  then show ?case by (simp add: child_rows_def)
next
  case (Cons r t)
  then have ih: "distinct (map pk (child_rows t p c))" by simp
  show ?case
  proof (cases "descendent r = p")
    case False
    with ih show ?thesis by (simp add: child_rows_Cons)
  next
    case True
    have "(ancestor r, c) \<notin> pk ` set (child_rows t p c)"
    proof
      assume "(ancestor r, c) \<in> pk ` set (child_rows t p c)"
      then have "(ancestor r, p) \<in> pk ` set t" by (simp add: child_rows_keys)
      moreover from True have "pk r = (ancestor r, p)" by (simp add: pk_eq)
      ultimately have "pk r \<in> pk ` set t" by simp
      with Cons.prems show False by simp
    qed
    with ih True show ?thesis by (simp add: child_rows_Cons pk_row)
  qed
qed



subsection \<open>Idempotence\<close>

text \<open>
  C8. For every database and every pair of parent and child, with foreign keys enforced
  or not, a second call of associate-as-child with the same arguments leaves the closure
  table (and the rest of the database) exactly as the first call left it: every row the
  second call selects has its key in the table already.
\<close>

theorem associate_twice_is_once:
  "associate_as_child foreign_keys (associate_as_child foreign_keys db p c) p c
     = associate_as_child foreign_keys db p c"
proof (cases "run_ASSOCIATE_DECK_AS_CHILD foreign_keys db p c")
  case (Inl err)
  then show ?thesis by (simp add: associate_as_child_def)
next
  case (Inr db')
  let ?t = "DecksClosure db"
  let ?t' = "foldl insert_or_ignore ?t (associate_rows ?t p c)"
  from Inr have db': "db' = db\<lparr>DecksClosure := ?t'\<rparr>"
    by (auto simp: run_ASSOCIATE_DECK_AS_CHILD_def Let_def split: if_splits)
  obtain added where added: "?t' = ?t @ added" "set added \<subseteq> set (associate_rows ?t p c)"
    using foldl_ignore_prefix by blast
  have keys: "pk ` set ?t' = pk ` set ?t \<union> pk ` set (associate_rows ?t p c)"
    by (rule foldl_ignore_keys)
  have "pk ` set (associate_rows ?t' p c) \<subseteq> pk ` set ?t'"
  proof
    fix k assume "k \<in> pk ` set (associate_rows ?t' p c)"
    then obtain x where x: "x \<in> set (associate_rows ?t' p c)" "k = pk x" by blast
    from x(1) consider (self) "x = \<lparr>ancestor = c, descendent = c, depth = 0\<rparr>"
      | (row) r where "r \<in> set ?t'" "descendent r = p"
                      "x = \<lparr>ancestor = ancestor r, descendent = c, depth = depth r + 1\<rparr>"
      by (auto simp: in_associate_rows)
    then show "k \<in> pk ` set ?t'"
    proof cases
      case self
      then have "x \<in> set (associate_rows ?t p c)" by (simp add: in_associate_rows)
      with x keys show ?thesis by blast
    next
      case (row r)
      from row(1) added(1) consider "r \<in> set ?t" | "r \<in> set added" by auto
      then show ?thesis
      proof cases
        case 1
        with row have "x \<in> set (associate_rows ?t p c)" by (auto simp: in_associate_rows)
        with x keys show ?thesis by blast
      next
        case 2
        with added(2) have "descendent r = c" by (auto dest: associate_rows_descendent)
        with row have "pk x = pk r" by (simp add: pk_def)
        with row(1) x(2) show ?thesis by auto
      qed
    qed
  qed
  then have "foldl insert_or_ignore ?t' (associate_rows ?t' p c) = ?t'"
    by (rule foldl_ignore_present)
  then have "run_ASSOCIATE_DECK_AS_CHILD foreign_keys db' p c = Inr db'"
    by (simp add: run_ASSOCIATE_DECK_AS_CHILD_def db')
  with Inr show ?thesis by (simp add: associate_as_child_def)
qed


theorem associate_twice_is_once_witness:
  "associate_as_child True (associate_as_child True three_decks 1 2) 1 2 = associate_as_child True three_decks 1 2
   \<and> associate_as_child True three_decks 1 2
       = \<lparr>Decks = Decks three_decks,
          DecksClosure = [\<lparr>ancestor = 1, descendent = 1, depth = 0\<rparr>,
                          \<lparr>ancestor = 2, descendent = 2, depth = 0\<rparr>,
                          \<lparr>ancestor = 3, descendent = 3, depth = 0\<rparr>,
                          \<lparr>ancestor = 1, descendent = 2, depth = 1\<rparr>]\<rparr>"
proof -
  have "associate_as_child True three_decks 1 2
       = \<lparr>Decks = Decks three_decks,
          DecksClosure = [\<lparr>ancestor = 1, descendent = 1, depth = 0\<rparr>,
                          \<lparr>ancestor = 2, descendent = 2, depth = 0\<rparr>,
                          \<lparr>ancestor = 3, descendent = 3, depth = 0\<rparr>,
                          \<lparr>ancestor = 1, descendent = 2, depth = 1\<rparr>]\<rparr>"
    by (simp add: three_decks_def associate_as_child_def run_ASSOCIATE_DECK_AS_CHILD_def
                  associate_rows_def child_rows_def insert_or_ignore_def pk_def
                  references_Decks_def Let_def)
  with associate_twice_is_once [of True three_decks 1 2] show ?thesis by (intro conjI)
qed

subsection \<open>The table is the closure of the edges\<close>

lemma descends_mono: "descends D E a d n \<Longrightarrow> E \<subseteq> E' \<Longrightarrow> descends D E' a d n"
  by (induction rule: descends.induct) (auto intro: descends.intros)

lemma descends_start: "descends D E a d n \<Longrightarrow> a \<in> D"
  by (induction rule: descends.induct) auto

lemma descends_no_edges: "descends D {} a d n \<longleftrightarrow> a \<in> D \<and> d = a \<and> n = 0"
  by (auto elim: descends.cases intro: descends.self)

lemma row_eq: "(r :: DecksClosure_row) = \<lparr>ancestor = ancestor r, descendent = descendent r, depth = depth r\<rparr>"
  by simp

lemma new_decks_closure:
  assumes "set (DecksClosure db) = (\<lambda>d. \<lparr>ancestor = d, descendent = d, depth = 0\<rparr>) ` deck_id ` set (Decks db)"
  shows "is_closure_of db {}"
  unfolding is_closure_of_def descends_no_edges
proof (intro allI iffI)
  fix r :: DecksClosure_row
  assume "r \<in> set (DecksClosure db)"
  with assms obtain d where "d \<in> deck_id ` set (Decks db)"
      "r = \<lparr>ancestor = d, descendent = d, depth = 0\<rparr>" by auto
  then show "ancestor r \<in> deck_id ` set (Decks db) \<and> descendent r = ancestor r \<and> depth r = 0"
    by simp
next
  fix r :: DecksClosure_row
  assume a: "ancestor r \<in> deck_id ` set (Decks db) \<and> descendent r = ancestor r \<and> depth r = 0"
  then have "r = \<lparr>ancestor = ancestor r, descendent = ancestor r, depth = 0\<rparr>" by simp
  with a assms show "r \<in> set (DecksClosure db)" by blast
qed

lemma associate_step:
  assumes pk: "primary_key_ok db" and cl: "is_closure_of db E" and ne: "new_edge db p c"
  shows "\<exists>db'. run_ASSOCIATE_DECK_AS_CHILD foreign_keys db p c = Inr db' \<and> Decks db' = Decks db
           \<and> primary_key_ok db' \<and> is_closure_of db' (insert (p, c) E)"
proof -
  let ?t = "DecksClosure db"
  let ?D = "deck_id ` set (Decks db)"
  let ?self = "\<lparr>ancestor = c, descendent = c, depth = 0\<rparr>"
  let ?new = "child_rows ?t p c"
  from pk have dt: "distinct (map pk ?t)" by (simp add: primary_key_ok_def)
  from ne have pc: "p \<noteq> c" and cD: "c \<in> ?D"
    and leaf: "\<And>r. r \<in> set ?t \<Longrightarrow> ancestor r = c \<Longrightarrow> descendent r = c"
    and fresh: "\<And>r. r \<in> set ?t \<Longrightarrow> descendent r = p \<Longrightarrow> (ancestor r, c) \<notin> pk ` set ?t"
    by (auto simp: new_edge_def)
  have row: "\<And>a d n. \<lparr>ancestor = a, descendent = d, depth = n\<rparr> \<in> set ?t \<longleftrightarrow> descends ?D E a d n"
    using cl by (simp add: is_closure_of_def)
  from cD have self_in: "?self \<in> set ?t" by (simp add: row descends.self)
  then have self_key: "pk ?self \<in> pk ` set ?t" by (rule imageI)
  \<comment> \<open>the rows the statement inserts\<close>
  have new_fresh: "filter (\<lambda>r. pk r \<notin> pk ` set ?t) ?new = ?new"
  proof -
    have "pk x \<notin> pk ` set ?t" if "x \<in> set ?new" for x
    proof -
      from that obtain r where r: "r \<in> set ?t" "descendent r = p"
          "x = \<lparr>ancestor = ancestor r, descendent = c, depth = depth r + 1\<rparr>"
        by (auto simp: in_child_rows)
      from r(3) have "pk x = (ancestor r, c)" by (simp add: pk_row)
      with fresh [OF r(1) r(2)] show ?thesis by simp
    qed
    then show ?thesis by (simp add: filter_id_conv)
  qed
  have t1: "foldl insert_or_ignore ?t ?new = ?t @ ?new"
    using foldl_ignore_distinct [OF child_rows_distinct [OF dt], of ?t p c] new_fresh by simp
  from self_key have "pk ?self \<in> pk ` set (?t @ ?new)" by auto
  then have t': "foldl insert_or_ignore ?t (associate_rows ?t p c) = ?t @ ?new"
    by (simp add: associate_rows_split t1 insert_or_ignore_present)
  have fk_new: "list_all (references_Decks (Decks db)) ?new"
  proof -
    have "\<And>r. r \<in> set ?t \<Longrightarrow> ancestor r \<in> ?D"
    proof -
      fix r assume "r \<in> set ?t"
      with cl have "descends ?D E (ancestor r) (descendent r) (depth r)" by (simp add: is_closure_of_def)
      then show "ancestor r \<in> ?D" by (rule descends_start)
    qed
    with cD show ?thesis by (auto simp: list_all_iff in_child_rows references_Decks_def)
  qed
  let ?db' = "db\<lparr>DecksClosure := ?t @ ?new\<rparr>"
  have run: "run_ASSOCIATE_DECK_AS_CHILD foreign_keys db p c = Inr ?db'"
    by (simp add: run_ASSOCIATE_DECK_AS_CHILD_def Let_def t' fk_new)
  have "distinct (map pk (foldl insert_or_ignore ?t (associate_rows ?t p c)))"
    by (rule foldl_ignore_pk [OF dt])
  then have pk': "primary_key_ok ?db'" by (simp add: primary_key_ok_def t')
  \<comment> \<open>the child has no child of its own among the edges\<close>
  have no_child: "x \<noteq> c" if "(x, y) \<in> E" for x y
  proof
    assume "x = c"
    with that cD have "descends ?D E c y (Suc 0)" by (auto intro: descends.intros)
    then have in1: "\<lparr>ancestor = c, descendent = y, depth = Suc 0\<rparr> \<in> set ?t" by (simp add: row)
    from leaf [OF in1] have "y = c" by simp
    with in1 have in1': "\<lparr>ancestor = c, descendent = c, depth = Suc 0\<rparr> \<in> set ?t" by simp
    have "pk \<lparr>ancestor = c, descendent = c, depth = Suc 0\<rparr> = pk ?self" by (simp add: pk_row)
    with dt in1' self_in have "\<lparr>ancestor = c, descendent = c, depth = Suc 0\<rparr> = ?self"
      by (meson distinct_map inj_onD)
    then show False by simp
  qed
  \<comment> \<open>the closure of the edges with the new one\<close>
  have split: "descends ?D E a d n \<or> (d = c \<and> (\<exists>m. n = Suc m \<and> descends ?D E a p m))"
    if "descends ?D (insert (p, c) E) a d n" for a d n
    using that
  proof (induction rule: descends.induct)
    case (self a)
    then show ?case by (simp add: descends.self)
  next
    case (link a x n y)
    from link.hyps(2) pc no_child have "x \<noteq> c" by auto
    with link.IH have old: "descends ?D E a x n" by simp
    from link.hyps(2) show ?case
    proof
      assume "(x, y) = (p, c)"
      with old show ?thesis by simp
    next
      assume "(x, y) \<in> E"
      with old show ?thesis by (auto intro: descends.link)
    qed
  qed
  have cl': "is_closure_of ?db' (insert (p, c) E)"
    unfolding is_closure_of_def
  proof (intro allI iffI)
    fix r :: DecksClosure_row
    assume "r \<in> set (DecksClosure ?db')"
    then consider "r \<in> set ?t" | "r \<in> set ?new" by auto
    then show "descends (deck_id ` set (Decks ?db')) (insert (p, c) E) (ancestor r) (descendent r) (depth r)"
    proof cases
      case 1
      with cl have "descends ?D E (ancestor r) (descendent r) (depth r)" by (simp add: is_closure_of_def)
      then show ?thesis by (auto intro: descends_mono)
    next
      case 2
      then obtain r0 where r0: "r0 \<in> set ?t" "descendent r0 = p"
          "r = \<lparr>ancestor = ancestor r0, descendent = c, depth = depth r0 + 1\<rparr>"
        by (auto simp: in_child_rows)
      with cl have "descends ?D E (ancestor r0) p (depth r0)" by (auto simp: is_closure_of_def)
      then have "descends ?D (insert (p, c) E) (ancestor r0) p (depth r0)"
        by (auto intro: descends_mono)
      then have "descends ?D (insert (p, c) E) (ancestor r0) c (Suc (depth r0))"
        by (rule descends.link) simp
      with r0(3) show ?thesis by simp
    qed
  next
    fix r :: DecksClosure_row
    assume "descends (deck_id ` set (Decks ?db')) (insert (p, c) E) (ancestor r) (descendent r) (depth r)"
    then have "descends ?D (insert (p, c) E) (ancestor r) (descendent r) (depth r)" by simp
    from split [OF this] show "r \<in> set (DecksClosure ?db')"
    proof
      assume "descends ?D E (ancestor r) (descendent r) (depth r)"
      with cl show ?thesis by (simp add: is_closure_of_def)
    next
      assume "descendent r = c \<and> (\<exists>m. depth r = Suc m \<and> descends ?D E (ancestor r) p m)"
      then obtain m where m: "descendent r = c" "depth r = Suc m" "descends ?D E (ancestor r) p m"
        by blast
      from m(3) have "\<lparr>ancestor = ancestor r, descendent = p, depth = m\<rparr> \<in> set ?t" by (simp add: row)
      then have "\<lparr>ancestor = ancestor r, descendent = c, depth = m + 1\<rparr> \<in> set ?new"
        unfolding in_child_rows
        by (intro bexI [of _ "\<lparr>ancestor = ancestor r, descendent = p, depth = m\<rparr>"]) simp_all
      moreover from m have "r = \<lparr>ancestor = ancestor r, descendent = c, depth = m + 1\<rparr>" by simp
      ultimately show ?thesis by simp
    qed
  qed
  from run pk' cl' show ?thesis by auto
qed


lemma three_decks_created:
  "run_CREATE_NEW_DECK \<lparr>Decks = [], DecksClosure = []\<rparr> ''Animals'' = Inr db1
   \<Longrightarrow> run_CREATE_NEW_DECK db1 ''Mammals'' = Inr db2
   \<Longrightarrow> run_CREATE_NEW_DECK db2 ''Dogs'' = Inr db3
   \<Longrightarrow> db3 = three_decks"
  by (auto simp: run_CREATE_NEW_DECK_def three_decks_def insert_or_ignore_def pk_def Let_def)

text \<open>Creating a deck keeps the table the closure of the same edges, over one more deck.\<close>

lemma fold_max_start: "a \<le> fold max xs (a::nat)"
proof (induction xs arbitrary: a)
  case Nil
  show ?case by simp
next
  case (Cons z zs)
  have "a \<le> max z a" by simp
  also have "\<dots> \<le> fold max zs (max z a)" by (rule Cons.IH)
  finally show ?case by simp
qed

lemma fold_max_ge: "x \<in> set xs \<Longrightarrow> x \<le> fold max xs (a::nat)"
proof (induction xs arbitrary: a)
  case Nil
  then show ?case by simp
next
  case (Cons y ys)
  from Cons.prems consider "x = y" | "x \<in> set ys" by auto
  then show ?case
  proof cases
    case 1
    have "y \<le> max y a" by simp
    also have "\<dots> \<le> fold max ys (max y a)" by (rule fold_max_start)
    finally show ?thesis using 1 by simp
  next
    case 2
    from Cons.IH [OF this] show ?thesis by simp
  qed
qed

lemma empty_database_closure: "is_closure_of \<lparr>Decks = [], DecksClosure = []\<rparr> {}"
  by (rule new_decks_closure) simp

lemma create_deck_keeps_closure:
  assumes cl: "is_closure_of db E"
    and parents: "fst ` E \<subseteq> deck_id ` set (Decks db)"
    and nm: "nm \<noteq> []"
  shows "\<exists>db'. run_CREATE_NEW_DECK db nm = Inr db' \<and> is_closure_of db' E
           \<and> fst ` E \<subseteq> deck_id ` set (Decks db')
           \<and> (primary_key_ok db \<longrightarrow> primary_key_ok db')"
proof -
  let ?D = "deck_id ` set (Decks db)"
  let ?n = "Suc (fold max (map deck_id (Decks db)) 0)"
  let ?self = "\<lparr>ancestor = ?n, descendent = ?n, depth = 0\<rparr>"
  let ?t = "DecksClosure db"
  let ?db' = "\<lparr>Decks = Decks db @ [\<lparr>deck_id = ?n, name = nm\<rparr>], DecksClosure = ?t @ [?self]\<rparr>"
  have fresh: "?n \<notin> ?D"
  proof
    assume "?n \<in> ?D"
    then have "?n \<in> set (map deck_id (Decks db))" by simp
    from fold_max_ge [OF this, of 0] show False by simp
  qed
  have anc: "ancestor r \<in> ?D" if "r \<in> set ?t" for r
  proof -
    from that cl have "descends ?D E (ancestor r) (descendent r) (depth r)"
      by (simp add: is_closure_of_def)
    then show ?thesis by (rule descends_start)
  qed
  have "pk ?self \<notin> pk ` set ?t"
  proof
    assume "pk ?self \<in> pk ` set ?t"
    then obtain r where "r \<in> set ?t" "pk r = pk ?self" by force
    then have "r \<in> set ?t" "ancestor r = ?n" by (simp_all add: pk_eq pk_row)
    with anc [of r] fresh show False by simp
  qed
  then have ins: "insert_or_ignore ?t ?self = ?t @ [?self]" by (rule insert_or_ignore_new)
  from nm have run: "run_CREATE_NEW_DECK db nm = Inr ?db'"
    by (simp add: run_CREATE_NEW_DECK_def Let_def ins)
  have D': "deck_id ` set (Decks ?db') = insert ?n ?D" by simp
  have from_new: "d = ?n \<and> k = 0" if "descends (insert ?n ?D) E ?n d k" for d k
    using that
  proof (induction "?n" d k rule: descends.induct)
    case self
    then show ?case by simp
  next
    case (link p k c)
    then have "(?n, c) \<in> E" by simp
    then have "?n \<in> fst ` E" by force
    with parents fresh show ?case by auto
  qed
  have old: "descends ?D E a d k" if "descends (insert ?n ?D) E a d k" "a \<noteq> ?n" for a d k
    using that by (induction rule: descends.induct) (auto intro: descends.intros)
  have grow: "descends (insert ?n ?D) E a d k" if "descends ?D E a d k" for a d k
    using that by (induction rule: descends.induct) (auto intro: descends.intros)
  have cl': "is_closure_of ?db' E"
    unfolding is_closure_of_def D'
  proof (intro allI iffI)
    fix r :: DecksClosure_row
    assume "r \<in> set (DecksClosure ?db')"
    then consider "r \<in> set ?t" | "r = ?self" by auto
    then show "descends (insert ?n ?D) E (ancestor r) (descendent r) (depth r)"
    proof cases
      case 1
      with cl have "descends ?D E (ancestor r) (descendent r) (depth r)" by (simp add: is_closure_of_def)
      then show ?thesis by (rule grow)
    next
      case 2
      then show ?thesis by (simp add: descends.self)
    qed
  next
    fix r :: DecksClosure_row
    assume d: "descends (insert ?n ?D) E (ancestor r) (descendent r) (depth r)"
    show "r \<in> set (DecksClosure ?db')"
    proof (cases "ancestor r = ?n")
      case True
      with d from_new [of "descendent r" "depth r"] have "r = ?self" by simp
      then show ?thesis by simp
    next
      case False
      from old [OF d False] cl have "r \<in> set ?t" by (simp add: is_closure_of_def)
      then show ?thesis by simp
    qed
  qed
  have pk': "primary_key_ok db \<longrightarrow> primary_key_ok ?db'"
    using \<open>pk ?self \<notin> pk ` set ?t\<close> by (simp add: primary_key_ok_def)
  from parents have "fst ` E \<subseteq> deck_id ` set (Decks ?db')" by auto
  with run cl' pk' show ?thesis by blast
qed

lemma associate_run:
  assumes "primary_key_ok db" "is_closure_of db E" "hierarchy_order foreign_keys db calls"
  shows "\<exists>db'. associate_all foreign_keys db calls = Inr db' \<and> Decks db' = Decks db
           \<and> primary_key_ok db' \<and> is_closure_of db' (E \<union> set calls)"
  using assms
proof (induction calls arbitrary: db E)
  case Nil
  then show ?case by simp
next
  case (Cons call calls)
  obtain p c where call: "call = (p, c)" by (cases call)
  from Cons.prems(3) call have ne: "new_edge db p c"
    and rest: "hierarchy_order foreign_keys (associate_as_child foreign_keys db p c) calls" by simp_all
  from associate_step [OF Cons.prems(1) Cons.prems(2) ne] obtain db1
    where db1: "run_ASSOCIATE_DECK_AS_CHILD foreign_keys db p c = Inr db1" "Decks db1 = Decks db"
               "primary_key_ok db1" "is_closure_of db1 (insert (p, c) E)" by blast
  from db1(1) have "associate_as_child foreign_keys db p c = db1" by (simp add: associate_as_child_def)
  with rest have "hierarchy_order foreign_keys db1 calls" by simp
  from Cons.IH [OF db1(3) db1(4) this] obtain db'
    where db': "associate_all foreign_keys db1 calls = Inr db'" "Decks db' = Decks db1"
               "primary_key_ok db'" "is_closure_of db' (insert (p, c) E \<union> set calls)" by blast
  have "insert (p, c) E \<union> set calls = E \<union> set (call # calls)" using call by auto
  with db' db1 call show ?case by simp
qed

text \<open>
  C1. Start from a database whose closure table is the closure of a set \<open>E\<close> of direct
  edges over its decks (after deck creation alone: the self-edges, and no edge), with the
  primary key intact, and make a sequence of associate-as-child calls of which each links
  a new edge in hierarchy order. Then every call succeeds (with foreign keys enforced or
  not), and the closure table is the
  closure of \<open>E\<close> with the edges of the calls: a row \<open>(a, d, n)\<close> is in the table if and
  only if \<open>d\<close> is reached from \<open>a\<close> by a chain of \<open>n\<close> direct edges. In particular, after
  associate-as-child(A, B) and then associate-as-child(B, C) the table has the row
  \<open>(A, C, 2)\<close>.
\<close>

theorem closure_table_is_transitive_closure:
  assumes "primary_key_ok db" "is_closure_of db E" "hierarchy_order foreign_keys db calls"
  shows "\<exists>db'. associate_all foreign_keys db calls = Inr db' \<and> Decks db' = Decks db
           \<and> primary_key_ok db' \<and> is_closure_of db' (E \<union> set calls)
           \<and> (\<forall>A B C. calls = [(A, B), (B, C)] \<and> A \<in> deck_id ` set (Decks db)
                 \<longrightarrow> \<lparr>ancestor = A, descendent = C, depth = 2\<rparr> \<in> set (DecksClosure db'))"
proof -
  from associate_run [OF assms] obtain db'
    where db': "associate_all foreign_keys db calls = Inr db'" "Decks db' = Decks db"
               "primary_key_ok db'" "is_closure_of db' (E \<union> set calls)" by blast
  have "\<lparr>ancestor = A, descendent = C, depth = 2\<rparr> \<in> set (DecksClosure db')"
    if "calls = [(A, B), (B, C)] \<and> A \<in> deck_id ` set (Decks db)" for A B C
  proof -
    let ?D = "deck_id ` set (Decks db)"
    let ?E = "E \<union> set calls"
    from that have "descends ?D ?E A A 0" by (auto intro: descends.self)
    moreover from that have "(A, B) \<in> ?E" "(B, C) \<in> ?E" by auto
    ultimately have "descends ?D ?E A C (Suc (Suc 0))" by (auto intro: descends.link)
    with db'(2,4) show ?thesis by (simp add: is_closure_of_def numeral_2_eq_2)
  qed
  with db' show ?thesis by blast
qed

lemma three_decks_closure: "is_closure_of three_decks {}"
  by (rule new_decks_closure) (simp add: three_decks_def)

theorem closure_table_is_transitive_closure_witness:
  "primary_key_ok three_decks
   \<and> hierarchy_order True three_decks [(1, 2), (2, 3)]
   \<and> associate_all True three_decks [(1, 2), (2, 3)]
       = Inr \<lparr>Decks = Decks three_decks,
              DecksClosure = [\<lparr>ancestor = 1, descendent = 1, depth = 0\<rparr>,
                              \<lparr>ancestor = 2, descendent = 2, depth = 0\<rparr>,
                              \<lparr>ancestor = 3, descendent = 3, depth = 0\<rparr>,
                              \<lparr>ancestor = 1, descendent = 2, depth = 1\<rparr>,
                              \<lparr>ancestor = 2, descendent = 3, depth = 1\<rparr>,
                              \<lparr>ancestor = 1, descendent = 3, depth = 2\<rparr>]\<rparr>
   \<and> is_closure_of
        \<lparr>Decks = Decks three_decks,
         DecksClosure = [\<lparr>ancestor = 1, descendent = 1, depth = 0\<rparr>,
                         \<lparr>ancestor = 2, descendent = 2, depth = 0\<rparr>,
                         \<lparr>ancestor = 3, descendent = 3, depth = 0\<rparr>,
                         \<lparr>ancestor = 1, descendent = 2, depth = 1\<rparr>,
                         \<lparr>ancestor = 2, descendent = 3, depth = 1\<rparr>,
                         \<lparr>ancestor = 1, descendent = 3, depth = 2\<rparr>]\<rparr>
        {(1, 2), (2, 3)}"
proof -
  have pk0: "primary_key_ok three_decks"
    by (simp add: primary_key_ok_def three_decks_def pk_def)
  have run: "associate_all True three_decks [(1, 2), (2, 3)]
       = Inr \<lparr>Decks = Decks three_decks,
              DecksClosure = [\<lparr>ancestor = 1, descendent = 1, depth = 0\<rparr>,
                              \<lparr>ancestor = 2, descendent = 2, depth = 0\<rparr>,
                              \<lparr>ancestor = 3, descendent = 3, depth = 0\<rparr>,
                              \<lparr>ancestor = 1, descendent = 2, depth = 1\<rparr>,
                              \<lparr>ancestor = 2, descendent = 3, depth = 1\<rparr>,
                              \<lparr>ancestor = 1, descendent = 3, depth = 2\<rparr>]\<rparr>"
    by (simp add: three_decks_def run_ASSOCIATE_DECK_AS_CHILD_def associate_rows_def child_rows_def
                  insert_or_ignore_def pk_def references_Decks_def Let_def)
  have ord: "hierarchy_order True three_decks [(1, 2), (2, 3)]"
    by (simp add: three_decks_def new_edge_def associate_as_child_def
                  run_ASSOCIATE_DECK_AS_CHILD_def associate_rows_def child_rows_def
                  insert_or_ignore_def pk_def references_Decks_def Let_def)
  from closure_table_is_transitive_closure [OF pk0 three_decks_closure ord] run
  have "is_closure_of
        \<lparr>Decks = Decks three_decks,
         DecksClosure = [\<lparr>ancestor = 1, descendent = 1, depth = 0\<rparr>,
                         \<lparr>ancestor = 2, descendent = 2, depth = 0\<rparr>,
                         \<lparr>ancestor = 3, descendent = 3, depth = 0\<rparr>,
                         \<lparr>ancestor = 1, descendent = 2, depth = 1\<rparr>,
                         \<lparr>ancestor = 2, descendent = 3, depth = 1\<rparr>,
                         \<lparr>ancestor = 1, descendent = 3, depth = 2\<rparr>]\<rparr>
        {(1, 2), (2, 3)}"
    by auto
  with pk0 ord run show ?thesis by (intro conjI)
qed

text \<open>Fetching the direct children after one association.\<close>

lemma fetch_children_example:
  "run_DECK_CHILDREN (associate_as_child True three_decks 1 2) 1
     = [\<lparr>ancestor = 1, descendent = 2, depth = 1\<rparr>]"
  "run_DECK_CHILDREN (associate_as_child True three_decks 1 2) 3 = []"
  by (simp_all add: run_DECK_CHILDREN_def three_decks_def associate_as_child_def
        run_ASSOCIATE_DECK_AS_CHILD_def associate_rows_def child_rows_def insert_or_ignore_def
        pk_def references_Decks_def Let_def)


end
